theory Spec2Isabelle
  imports Complex_Main "HOL-Library.Monad_Syntax" "HOL-Library.Sublist"
begin

section \<open>The G-code interpreter of TinyG (firmware/tinyg\_exp/gcode.c)\<close>

text \<open>
  The interpreter takes one line of RS274/NGC code in a mutable character buffer,
  normalizes it in place, splits it into statements (a letter and a number), collects
  the statements into the next model state \<open>gn\<close> with its flags \<open>gf\<close>, and calls the
  canonical machine in a fixed order.

  The headers of the file (tinyg.h, gcode.h, canonical\_machine.h) are not part of the
  sources at hand, so the status codes and the enumerations are datatypes here, one
  constructor for each name the C file uses, and the canonical machine is a parameter.
\<close>

subsection \<open>Characters and the line buffer\<close>

text \<open>
  A buffer is the array of characters behind a \<open>char *\<close>; the C string in it ends
  before the first NUL. Reading or writing outside the array has no result (\<open>None\<close>).
  The indices of the C file are \<open>uint8_t\<close>: they are natural numbers here and every
  increment is taken modulo 256.
\<close>

definition NUL :: char where
  "NUL = CHR 0x00"

definition DEL :: char where
  "DEL = CHR 0x7F"

definition code :: "char \<Rightarrow> nat" where
  "code c = of_char c"

definition isupper :: "char \<Rightarrow> bool" where
  "isupper c = (65 \<le> code c \<and> code c \<le> 90)"

definition islower :: "char \<Rightarrow> bool" where
  "islower c = (97 \<le> code c \<and> code c \<le> 122)"

definition isdigit :: "char \<Rightarrow> bool" where
  "isdigit c = (48 \<le> code c \<and> code c \<le> 57)"

definition toupper :: "char \<Rightarrow> char" where
  "toupper c = (if islower c then char_of (code c - 32) else c)"

definition peek :: "string \<Rightarrow> nat \<Rightarrow> char option" where
  "peek buf i = (if i < length buf then Some (buf ! i) else None)"

definition poke :: "string \<Rightarrow> nat \<Rightarrow> char \<Rightarrow> string option" where
  "poke buf i c = (if i < length buf then Some (buf[i := c]) else None)"

definition cstr :: "string \<Rightarrow> string" where
  "cstr buf = takeWhile (\<lambda>c. c \<noteq> NUL) buf"

definition cstr_at :: "string \<Rightarrow> nat \<Rightarrow> string option" where
  "cstr_at buf i = (if NUL \<in> set (drop i buf) then Some (cstr (drop i buf)) else None)"

definition incr8 :: "nat \<Rightarrow> nat" where
  "incr8 i = (i + 1) mod 256"

definition decr8 :: "nat \<Rightarrow> nat" where
  "decr8 i = (i + 255) mod 256"

text \<open>
  Whether plain \<open>char\<close> is signed is the compiler's choice (avr-gcc: signed unless
  \<open>-funsigned-char\<close>). It decides the test \<open>c <= ' '\<close> for the bytes from 0x80 on, so
  the normalizer takes it as the parameter \<open>schar\<close>.
\<close>

definition le_space :: "bool \<Rightarrow> char \<Rightarrow> bool" where
  "le_space schar c = (code c \<le> 32 \<or> (schar \<and> 128 \<le> code c))"

definition invalid_punctuation :: string where
  "invalid_punctuation =
     [CHR ''!'', CHR ''$'', CHR ''%'', CHR '','', CHR '';'', CHR '':'', CHR ''?'', CHR ''@'',
      CHR ''^'', CHR ''_'', CHR ''~'', CHR 0x60, CHR 0x27, CHR 0x22]"

subsection \<open>Status codes and the canonical machine\<close>

text \<open>
  \<open>TG_OK\<close> is the code 0 that the C file tests with \<open>if (gp.status)\<close>; \<open>TG_ERROR n\<close>
  stands for the codes of tinyg.h that gcode.c does not name and that a call of the
  canonical machine may return.
\<close>

datatype status =
    TG_OK
  | TG_QUIT
  | TG_EXPECTED_COMMAND_LETTER
  | TG_BAD_NUMBER_FORMAT
  | TG_UNSUPPORTED_STATEMENT
  | TG_ERROR nat

datatype next_action =
    NEXT_ACTION_NONE
  | NEXT_ACTION_MOTION
  | NEXT_ACTION_DWELL
  | NEXT_ACTION_GO_HOME
  | NEXT_ACTION_OFFSET_COORDINATES

datatype motion_mode =
    MOTION_MODE_STRAIGHT_TRAVERSE
  | MOTION_MODE_STRAIGHT_FEED
  | MOTION_MODE_CW_ARC
  | MOTION_MODE_CCW_ARC
  | MOTION_MODE_CANCEL_MOTION_MODE

datatype canon_plane = CANON_PLANE_XY | CANON_PLANE_XZ | CANON_PLANE_YZ

datatype spindle_mode = SPINDLE_OFF | SPINDLE_CW | SPINDLE_CCW

datatype program_flow = PROGRAM_FLOW_RUNNING | PROGRAM_FLOW_STOP | PROGRAM_FLOW_END

text \<open>
  One constructor for each function of the canonical machine that gcode.c calls, with
  the arguments of the call. Doubles are exact rationals.
\<close>

datatype cm_call =
    Cm_message string
  | Cm_set_inverse_feed_rate_mode bool
  | Cm_set_feed_rate rat
  | Cm_set_spindle_speed rat
  | Cm_select_tool int
  | Cm_change_tool int
  | Cm_start_spindle_clockwise
  | Cm_start_spindle_counterclockwise
  | Cm_stop_spindle_turning
  | Cm_dwell rat
  | Cm_select_plane canon_plane
  | Cm_use_length_units bool
  | Cm_set_distance_mode bool
  | Cm_return_to_home
  | Cm_set_origin_offsets rat rat rat
  | Cm_straight_traverse rat rat rat
  | Cm_straight_feed rat rat rat
  | Cm_arc_feed rat rat rat rat rat rat rat motion_mode

text \<open>
  The canonical machine owns the model state \<open>gm\<close> (type \<open>'m\<close>): three getters, and
  \<open>cm_run\<close>, which runs one call on the state and gives the returned status and the
  new state.
\<close>

record 'm canonical_machine =
  cm_get_next_action :: "'m \<Rightarrow> next_action"
  cm_get_motion_mode :: "'m \<Rightarrow> motion_mode"
  cm_get_position :: "nat \<Rightarrow> 'm \<Rightarrow> rat"
  cm_run :: "cm_call \<Rightarrow> 'm \<Rightarrow> status \<times> 'm"

record GCodeParser =
  letter :: char
  val :: rat
  fraction :: rat
  status :: status

record GCodeModel =
  next_action :: next_action
  motion_mode :: motion_mode
  target :: "rat list"
  offset :: "rat list"
  radius :: rat
  feed_rate :: rat
  dwell_time :: rat
  spindle_speed :: rat
  tool :: int
  change_tool :: bool
  spindle_mode :: spindle_mode
  set_plane :: canon_plane
  inches_mode :: bool
  absolute_override :: bool
  absolute_mode :: bool
  set_origin_mode :: bool
  inverse_feed_rate_mode :: bool
  program_flow :: program_flow

text \<open>
  \<open>gf\<close> has the type of \<open>gn\<close> in C and holds 0 or 1 in every field; here it is a
  record of booleans, one for each field of the model.
\<close>

record GCodeFlags =
  f_next_action :: bool
  f_motion_mode :: bool
  f_target :: "bool list"
  f_offset :: "bool list"
  f_radius :: bool
  f_feed_rate :: bool
  f_dwell_time :: bool
  f_spindle_speed :: bool
  f_tool :: bool
  f_change_tool :: bool
  f_spindle_mode :: bool
  f_set_plane :: bool
  f_inches_mode :: bool
  f_absolute_override :: bool
  f_absolute_mode :: bool
  f_set_origin_mode :: bool
  f_inverse_feed_rate_mode :: bool
  f_program_flow :: bool

text \<open>
  The state of the program: the three static structures of gcode.c, the state of the
  canonical machine, the calls made to it so far, each with the status it returned,
  and the lines handed to \<open>tg_print_status\<close>.
\<close>

record 'm state =
  gp :: GCodeParser
  gn :: GCodeModel
  gf :: GCodeFlags
  gm :: 'm
  calls :: "(cm_call \<times> status) list"
  printed :: "(status \<times> string) list"

definition cm_call :: "'m canonical_machine \<Rightarrow> cm_call \<Rightarrow> 'm state \<Rightarrow> status \<times> 'm state" where
  "cm_call cm c s =
     (let (st, m) = cm_run cm c (gm s)
      in (st, s\<lparr>gm := m, calls := calls s @ [(c, st)]\<rparr>))"

subsection \<open>Normalizing a block\<close>

text \<open>
  The copying loop of \<open>_gc_normalize_gcode_block\<close>, from the indices \<open>i\<close> (read) and
  \<open>j\<close> (write). It returns \<open>j\<close>, the buffer, and the index of the comment when it
  stopped at an opening parenthesis. With indices that wrap the loop need not end.
\<close>

partial_function (option) normalize_loop ::
  "bool \<Rightarrow> nat \<Rightarrow> nat \<Rightarrow> string \<Rightarrow> (nat \<times> nat option \<times> string) option"
where
  "normalize_loop schar i j block =
     do {
       c0 \<leftarrow> peek block i;
       let c = toupper c0; i1 = incr8 i in
       if c = NUL then Some (j, None, block)
       else if isupper c \<or> isdigit c then
         do { b \<leftarrow> poke block j c; normalize_loop schar i1 (incr8 j) b }
       else if c = CHR ''('' then
         do { b \<leftarrow> poke block j NUL; Some (j, Some i1, b) }
       else if le_space schar c then normalize_loop schar i1 j block
       else if c = DEL then normalize_loop schar i1 j block
       else if c \<in> set invalid_punctuation then normalize_loop schar i1 j block
       else do { b \<leftarrow> poke block j c; normalize_loop schar i1 (incr8 j) b }
     }"

declare normalize_loop.simps [code]

text \<open>
  The loop that cuts the comment at its first closing parenthesis; \<open>k\<close> is the index
  of the comment in the buffer and \<open>i\<close> the \<open>uint8_t\<close> index into the comment.
\<close>

partial_function (option) strip_paren_loop :: "nat \<Rightarrow> nat \<Rightarrow> string \<Rightarrow> string option"
where
  "strip_paren_loop k i block =
     do {
       c \<leftarrow> peek block (k + i);
       let i1 = incr8 i in
       if c = NUL then Some block
       else if c = CHR '')'' then poke block (k + decr8 i1) NUL
       else strip_paren_loop k i1 block
     }"

declare strip_paren_loop.simps [code]

text \<open>The test for the MSG specifier; \<open>&&\<close> reads the next character only when needed.\<close>

definition is_msg :: "string \<Rightarrow> nat \<Rightarrow> bool option" where
  "is_msg block k =
     do {
       c0 \<leftarrow> peek block k;
       if toupper c0 \<noteq> CHR ''M'' then Some False
       else do {
         c1 \<leftarrow> peek block (k + 1);
         if toupper c1 \<noteq> CHR ''S'' then Some False
         else do { c2 \<leftarrow> peek block (k + 2); Some (toupper c2 = CHR ''G'') }
       }
     }"

definition gc_normalize_gcode_block ::
  "'m canonical_machine \<Rightarrow> bool \<Rightarrow> string \<Rightarrow> 'm state \<Rightarrow> (string \<times> 'm state) option"
where
  "gc_normalize_gcode_block cm schar block s =
     do {
       c \<leftarrow> peek block 0;
       if c = CHR ''/'' then do { b \<leftarrow> poke block 0 NUL; Some (b, s) }
       else do {
         (j, comment, b1) \<leftarrow> normalize_loop schar 0 0 block;
         b2 \<leftarrow> poke b1 j NUL;
         case comment of
           None \<Rightarrow> Some (b2, s)
         | Some k \<Rightarrow>
             do {
               m \<leftarrow> is_msg b2 k;
               if m then
                 do {
                   b3 \<leftarrow> strip_paren_loop k 0 b2;
                   msg \<leftarrow> cstr_at b3 (k + 3);
                   Some (b3, snd (cm_call cm (Cm_message msg) s))
                 }
               else Some (b2, s)
             }
       }
     }"

subsection \<open>Reading statements\<close>

text \<open>
  \<open>strtod\<close> belongs to the C library. Here it is a parameter: a function from the C
  string at the start pointer to the value read and the number of characters consumed
  (0 when no conversion is done, and the value is then 0).
\<close>

type_synonym strtod = "string \<Rightarrow> rat \<times> nat"

text \<open>C's conversion of a double to an integer, and \<open>trunc\<close>: towards zero.\<close>

definition trunc :: "rat \<Rightarrow> int" where
  "trunc v = (if 0 \<le> v then \<lfloor>v\<rfloor> else \<lceil>v\<rceil>)"

definition set_status :: "status \<Rightarrow> 'm state \<Rightarrow> 'm state" where
  "set_status st s = s\<lparr>gp := (gp s)\<lparr>status := st\<rparr>\<rparr>"

text \<open>
  \<open>_gc_read_double\<close> with \<open>double_ptr = &gp.value\<close>: the value is stored before the
  test, and the new index is \<open>end - buf\<close> as a \<open>uint8_t\<close>.
\<close>

definition gc_read_double ::
  "strtod \<Rightarrow> string \<Rightarrow> nat \<Rightarrow> GCodeParser \<Rightarrow> (bool \<times> nat \<times> GCodeParser) option"
where
  "gc_read_double strtod buf i p =
     do {
       start \<leftarrow> cstr_at buf i;
       let (v, n) = strtod start; p1 = p\<lparr>val := v\<rparr> in
       if n = 0 then Some (False, i, p1\<lparr>status := TG_BAD_NUMBER_FORMAT\<rparr>)
       else Some (True, (i + n) mod 256, p1)
     }"

text \<open>
  \<open>_gc_next_statement\<close> with the pointers of its only call: \<open>&gp.letter\<close>,
  \<open>&gp.value\<close>, \<open>&gp.fraction\<close>. The result is the returned truth value, the cursor
  and the parser structure.
\<close>

definition gc_next_statement ::
  "strtod \<Rightarrow> string \<Rightarrow> nat \<Rightarrow> GCodeParser \<Rightarrow> (bool \<times> nat \<times> GCodeParser) option"
where
  "gc_next_statement strtod buf i p =
     do {
       c \<leftarrow> peek buf i;
       if c = NUL then Some (False, i, p)
       else
         let p1 = p\<lparr>letter := c\<rparr> in
         if \<not> isupper c then Some (False, i, p1\<lparr>status := TG_EXPECTED_COMMAND_LETTER\<rparr>)
         else do {
           (ok, i2, p2) \<leftarrow> gc_read_double strtod buf (incr8 i) p1;
           if \<not> ok then Some (False, i2, p2)
           else Some (True, i2, p2\<lparr>fraction := val p2 - of_int (trunc (val p2))\<rparr>)
         }
     }"

subsection \<open>Parsing a block\<close>

definition X :: nat where "X = 0"
definition Y :: nat where "Y = 1"
definition Z :: nat where "Z = 2"

text \<open>
  \<open>ZERO_MODEL_STATE\<close>. For an enumeration the zero is the enumerator with code 0,
  which gcode.h would tell; every such field is assigned or pre-set from the canonical
  machine before the dispatcher reads it.
\<close>

definition zero_model :: GCodeModel where
  "zero_model =
     \<lparr>next_action = NEXT_ACTION_NONE, motion_mode = MOTION_MODE_STRAIGHT_TRAVERSE,
      target = [0, 0, 0], offset = [0, 0, 0], radius = 0, feed_rate = 0, dwell_time = 0,
      spindle_speed = 0, tool = 0, change_tool = False, spindle_mode = SPINDLE_OFF,
      set_plane = CANON_PLANE_XY, inches_mode = False, absolute_override = False,
      absolute_mode = False, set_origin_mode = False, inverse_feed_rate_mode = False,
      program_flow = PROGRAM_FLOW_RUNNING\<rparr>"

definition zero_flags :: GCodeFlags where
  "zero_flags =
     \<lparr>f_next_action = False, f_motion_mode = False,
      f_target = [False, False, False], f_offset = [False, False, False], f_radius = False,
      f_feed_rate = False, f_dwell_time = False, f_spindle_speed = False, f_tool = False,
      f_change_tool = False, f_spindle_mode = False, f_set_plane = False,
      f_inches_mode = False, f_absolute_override = False, f_absolute_mode = False,
      f_set_origin_mode = False, f_inverse_feed_rate_mode = False, f_program_flow = False\<rparr>"

definition SET_NEXT_ACTION_MOTION :: "motion_mode \<Rightarrow> 'm state \<Rightarrow> 'm state" where
  "SET_NEXT_ACTION_MOTION v s =
     s\<lparr>gn := (gn s)\<lparr>motion_mode := v, next_action := NEXT_ACTION_MOTION\<rparr>,
       gf := (gf s)\<lparr>f_motion_mode := True, f_next_action := True\<rparr>\<rparr>"

text \<open>The inner switch of the letter G, on \<open>(int)gp.value\<close>.\<close>

definition parse_G :: "int \<Rightarrow> 'm state \<Rightarrow> 'm state" where
  "parse_G n s =
     (if n = 0 then SET_NEXT_ACTION_MOTION MOTION_MODE_STRAIGHT_TRAVERSE s
      else if n = 1 then SET_NEXT_ACTION_MOTION MOTION_MODE_STRAIGHT_FEED s
      else if n = 2 then SET_NEXT_ACTION_MOTION MOTION_MODE_CW_ARC s
      else if n = 3 then SET_NEXT_ACTION_MOTION MOTION_MODE_CCW_ARC s
      else if n = 4 then
        s\<lparr>gn := (gn s)\<lparr>next_action := NEXT_ACTION_DWELL\<rparr>, gf := (gf s)\<lparr>f_next_action := True\<rparr>\<rparr>
      else if n = 17 then
        s\<lparr>gn := (gn s)\<lparr>set_plane := CANON_PLANE_XY\<rparr>, gf := (gf s)\<lparr>f_set_plane := True\<rparr>\<rparr>
      else if n = 18 then
        s\<lparr>gn := (gn s)\<lparr>set_plane := CANON_PLANE_XZ\<rparr>, gf := (gf s)\<lparr>f_set_plane := True\<rparr>\<rparr>
      else if n = 19 then
        s\<lparr>gn := (gn s)\<lparr>set_plane := CANON_PLANE_YZ\<rparr>, gf := (gf s)\<lparr>f_set_plane := True\<rparr>\<rparr>
      else if n = 20 then
        s\<lparr>gn := (gn s)\<lparr>inches_mode := True\<rparr>, gf := (gf s)\<lparr>f_inches_mode := True\<rparr>\<rparr>
      else if n = 21 then
        s\<lparr>gn := (gn s)\<lparr>inches_mode := False\<rparr>, gf := (gf s)\<lparr>f_inches_mode := True\<rparr>\<rparr>
      else if n = 28 then
        s\<lparr>gn := (gn s)\<lparr>next_action := NEXT_ACTION_GO_HOME\<rparr>, gf := (gf s)\<lparr>f_next_action := True\<rparr>\<rparr>
      else if n = 30 then
        s\<lparr>gn := (gn s)\<lparr>next_action := NEXT_ACTION_GO_HOME\<rparr>, gf := (gf s)\<lparr>f_next_action := True\<rparr>\<rparr>
      else if n = 53 then
        s\<lparr>gn := (gn s)\<lparr>absolute_override := True\<rparr>,
          gf := (gf s)\<lparr>f_absolute_override := True\<rparr>\<rparr>
      else if n = 80 then
        s\<lparr>gn := (gn s)\<lparr>motion_mode := MOTION_MODE_CANCEL_MOTION_MODE\<rparr>,
          gf := (gf s)\<lparr>f_motion_mode := True\<rparr>\<rparr>
      else if n = 90 then
        s\<lparr>gn := (gn s)\<lparr>absolute_mode := True\<rparr>, gf := (gf s)\<lparr>f_absolute_mode := True\<rparr>\<rparr>
      else if n = 91 then
        s\<lparr>gn := (gn s)\<lparr>absolute_mode := False\<rparr>, gf := (gf s)\<lparr>f_absolute_mode := True\<rparr>\<rparr>
      else if n = 92 then
        s\<lparr>gn := (gn s)\<lparr>set_origin_mode := True\<rparr>, gf := (gf s)\<lparr>f_set_origin_mode := True\<rparr>\<rparr>
      else if n = 93 then
        s\<lparr>gn := (gn s)\<lparr>inverse_feed_rate_mode := True\<rparr>,
          gf := (gf s)\<lparr>f_inverse_feed_rate_mode := True\<rparr>\<rparr>
      else if n = 94 then
        s\<lparr>gn := (gn s)\<lparr>inverse_feed_rate_mode := False\<rparr>,
          gf := (gf s)\<lparr>f_inverse_feed_rate_mode := True\<rparr>\<rparr>
      else if n = 40 \<or> n = 49 \<or> n = 61 then s
      else set_status TG_UNSUPPORTED_STATEMENT s)"

text \<open>The inner switch of the letter M.\<close>

definition parse_M :: "int \<Rightarrow> 'm state \<Rightarrow> 'm state" where
  "parse_M n s =
     (if n = 0 \<or> n = 1 then
        s\<lparr>gn := (gn s)\<lparr>program_flow := PROGRAM_FLOW_STOP\<rparr>, gf := (gf s)\<lparr>f_program_flow := True\<rparr>\<rparr>
      else if n = 2 \<or> n = 30 \<or> n = 60 then
        s\<lparr>gn := (gn s)\<lparr>program_flow := PROGRAM_FLOW_END\<rparr>, gf := (gf s)\<lparr>f_program_flow := True\<rparr>\<rparr>
      else if n = 3 then
        s\<lparr>gn := (gn s)\<lparr>spindle_mode := SPINDLE_CW\<rparr>, gf := (gf s)\<lparr>f_spindle_mode := True\<rparr>\<rparr>
      else if n = 4 then
        s\<lparr>gn := (gn s)\<lparr>spindle_mode := SPINDLE_CCW\<rparr>, gf := (gf s)\<lparr>f_spindle_mode := True\<rparr>\<rparr>
      else if n = 5 then
        s\<lparr>gn := (gn s)\<lparr>spindle_mode := SPINDLE_OFF\<rparr>, gf := (gf s)\<lparr>f_spindle_mode := True\<rparr>\<rparr>
      else if n = 6 then
        s\<lparr>gn := (gn s)\<lparr>change_tool := True\<rparr>, gf := (gf s)\<lparr>f_change_tool := True\<rparr>\<rparr>
      else if n = 7 \<or> n = 8 \<or> n = 9 \<or> n = 48 \<or> n = 49 then s
      else set_status TG_UNSUPPORTED_STATEMENT s)"

text \<open>The switch on \<open>gp.letter\<close> in the loop of \<open>_gc_parse_gcode_block\<close>.\<close>

definition parse_statement :: "'m state \<Rightarrow> 'm state" where
  "parse_statement s =
     (let l = letter (gp s); v = val (gp s) in
      if l = CHR ''G'' then parse_G (trunc v) s
      else if l = CHR ''M'' then parse_M (trunc v) s
      else if l = CHR ''T'' then
        s\<lparr>gn := (gn s)\<lparr>tool := trunc v\<rparr>, gf := (gf s)\<lparr>f_tool := True\<rparr>\<rparr>
      else if l = CHR ''F'' then
        s\<lparr>gn := (gn s)\<lparr>feed_rate := v\<rparr>, gf := (gf s)\<lparr>f_feed_rate := True\<rparr>\<rparr>
      else if l = CHR ''P'' then
        s\<lparr>gn := (gn s)\<lparr>dwell_time := v\<rparr>, gf := (gf s)\<lparr>f_dwell_time := True\<rparr>\<rparr>
      else if l = CHR ''S'' then
        s\<lparr>gn := (gn s)\<lparr>spindle_speed := v\<rparr>, gf := (gf s)\<lparr>f_spindle_speed := True\<rparr>\<rparr>
      else if l = CHR ''X'' then
        s\<lparr>gn := (gn s)\<lparr>target := (target (gn s))[X := v]\<rparr>,
          gf := (gf s)\<lparr>f_target := (f_target (gf s))[X := True]\<rparr>\<rparr>
      else if l = CHR ''Y'' then
        s\<lparr>gn := (gn s)\<lparr>target := (target (gn s))[Y := v]\<rparr>,
          gf := (gf s)\<lparr>f_target := (f_target (gf s))[Y := True]\<rparr>\<rparr>
      else if l = CHR ''Z'' then
        s\<lparr>gn := (gn s)\<lparr>target := (target (gn s))[Z := v]\<rparr>,
          gf := (gf s)\<lparr>f_target := (f_target (gf s))[Z := True]\<rparr>\<rparr>
      else if l = CHR ''I'' then
        s\<lparr>gn := (gn s)\<lparr>offset := (offset (gn s))[0 := v]\<rparr>,
          gf := (gf s)\<lparr>f_offset := (f_offset (gf s))[0 := True]\<rparr>\<rparr>
      else if l = CHR ''J'' then
        s\<lparr>gn := (gn s)\<lparr>offset := (offset (gn s))[1 := v]\<rparr>,
          gf := (gf s)\<lparr>f_offset := (f_offset (gf s))[1 := True]\<rparr>\<rparr>
      else if l = CHR ''K'' then
        s\<lparr>gn := (gn s)\<lparr>offset := (offset (gn s))[2 := v]\<rparr>,
          gf := (gf s)\<lparr>f_offset := (f_offset (gf s))[2 := True]\<rparr>\<rparr>
      else if l = CHR ''R'' then
        s\<lparr>gn := (gn s)\<lparr>radius := v\<rparr>, gf := (gf s)\<lparr>f_radius := True\<rparr>\<rparr>
      else if l = CHR ''N'' then s
      else set_status TG_UNSUPPORTED_STATEMENT s)"

text \<open>
  The statement loop, from the cursor \<open>i\<close>: it ends when \<open>_gc_next_statement\<close>
  returns false or when a statement leaves a status other than \<open>TG_OK\<close>.
\<close>

partial_function (option) parse_loop ::
  "strtod \<Rightarrow> string \<Rightarrow> nat \<Rightarrow> 'm state \<Rightarrow> 'm state option"
where
  "parse_loop strtod buf i s =
     do {
       (more, i1, p) \<leftarrow> gc_next_statement strtod buf i (gp s);
       let s1 = s\<lparr>gp := p\<rparr> in
       if \<not> more then Some s1
       else
         let s2 = parse_statement s1 in
         if status (gp s2) \<noteq> TG_OK then Some s2 else parse_loop strtod buf i1 s2
     }"

declare parse_loop.simps [code]

subsection \<open>Executing a block\<close>

text \<open>
  \<open>_gc_execute_gcode_block\<close> is a sequence of guarded calls, several of which return
  from the function. Each step below takes the rest of the function as the
  continuation \<open>k\<close>; a step that returns does not run \<open>k\<close>. Every \<open>return\<close> of the C
  function returns \<open>gp.status\<close>, so the result is the final state.
\<close>

text \<open>
  \<open>if (cond) { if ((gp.status = f(args))) { return (gp.status); } }\<close>: the macro
  \<open>CALL_CM_FUNC\<close>, and the steps for dwell, homing and the origin offsets.
\<close>

definition CALL_CM_FUNC ::
  "'m canonical_machine \<Rightarrow> ('m state \<Rightarrow> bool) \<Rightarrow> ('m state \<Rightarrow> cm_call) \<Rightarrow>
   ('m state \<Rightarrow> 'm state) \<Rightarrow> 'm state \<Rightarrow> 'm state"
where
  "CALL_CM_FUNC cm cond f k s =
     (if cond s then
        (let (st, s1) = cm_call cm (f s) s; s2 = set_status st s1
         in if st \<noteq> TG_OK then s2 else k s2)
      else k s)"

text \<open>The spindle step: the value the call returns is not used.\<close>

definition spindle_on_or_off ::
  "'m canonical_machine \<Rightarrow> ('m state \<Rightarrow> 'm state) \<Rightarrow> 'm state \<Rightarrow> 'm state"
where
  "spindle_on_or_off cm k s =
     (if f_spindle_mode (gf s) then
        (if spindle_mode (gn s) = SPINDLE_CW then
           k (snd (cm_call cm Cm_start_spindle_clockwise s))
         else if spindle_mode (gn s) = SPINDLE_CCW then
           k (snd (cm_call cm Cm_start_spindle_counterclockwise s))
         else k (snd (cm_call cm Cm_stop_spindle_turning s)))
      else k s)"

text \<open>\<open>if (cond) { gp.status = f(args); return (gp.status); }\<close>: the motion steps.\<close>

definition motion_step ::
  "'m canonical_machine \<Rightarrow> ('m state \<Rightarrow> bool) \<Rightarrow> ('m state \<Rightarrow> cm_call) \<Rightarrow>
   ('m state \<Rightarrow> 'm state) \<Rightarrow> 'm state \<Rightarrow> 'm state"
where
  "motion_step cm cond f k s =
     (if cond s then (let (st, s1) = cm_call cm (f s) s in set_status st s1) else k s)"

definition gc_execute_gcode_block :: "'m canonical_machine \<Rightarrow> 'm state \<Rightarrow> 'm state" where
  "gc_execute_gcode_block cm =
     CALL_CM_FUNC cm (\<lambda>s. f_inverse_feed_rate_mode (gf s))
       (\<lambda>s. Cm_set_inverse_feed_rate_mode (inverse_feed_rate_mode (gn s))) (
     CALL_CM_FUNC cm (\<lambda>s. f_feed_rate (gf s)) (\<lambda>s. Cm_set_feed_rate (feed_rate (gn s))) (
     CALL_CM_FUNC cm (\<lambda>s. f_spindle_speed (gf s))
       (\<lambda>s. Cm_set_spindle_speed (spindle_speed (gn s))) (
     CALL_CM_FUNC cm (\<lambda>s. f_tool (gf s)) (\<lambda>s. Cm_select_tool (tool (gn s))) (
     CALL_CM_FUNC cm (\<lambda>s. f_tool (gf s)) (\<lambda>s. Cm_change_tool (tool (gn s))) (
     spindle_on_or_off cm (
     CALL_CM_FUNC cm (\<lambda>s. next_action (gn s) = NEXT_ACTION_DWELL)
       (\<lambda>s. Cm_dwell (dwell_time (gn s))) (
     CALL_CM_FUNC cm (\<lambda>s. f_set_plane (gf s)) (\<lambda>s. Cm_select_plane (set_plane (gn s))) (
     CALL_CM_FUNC cm (\<lambda>s. f_inches_mode (gf s))
       (\<lambda>s. Cm_use_length_units (inches_mode (gn s))) (
     CALL_CM_FUNC cm (\<lambda>s. f_absolute_mode (gf s))
       (\<lambda>s. Cm_set_distance_mode (absolute_mode (gn s))) (
     CALL_CM_FUNC cm (\<lambda>s. next_action (gn s) = NEXT_ACTION_GO_HOME) (\<lambda>s. Cm_return_to_home) (
     CALL_CM_FUNC cm (\<lambda>s. next_action (gn s) = NEXT_ACTION_OFFSET_COORDINATES)
       (\<lambda>s. Cm_set_origin_offsets (target (gn s) ! X) (target (gn s) ! Y) (target (gn s) ! Z)) (
     motion_step cm
       (\<lambda>s. next_action (gn s) = NEXT_ACTION_MOTION
           \<and> motion_mode (gn s) = MOTION_MODE_STRAIGHT_TRAVERSE)
       (\<lambda>s. Cm_straight_traverse (target (gn s) ! X) (target (gn s) ! Y) (target (gn s) ! Z)) (
     motion_step cm
       (\<lambda>s. next_action (gn s) = NEXT_ACTION_MOTION
           \<and> motion_mode (gn s) = MOTION_MODE_STRAIGHT_FEED)
       (\<lambda>s. Cm_straight_feed (target (gn s) ! X) (target (gn s) ! Y) (target (gn s) ! Z)) (
     motion_step cm
       (\<lambda>s. next_action (gn s) = NEXT_ACTION_MOTION
           \<and> (motion_mode (gn s) = MOTION_MODE_CW_ARC \<or> motion_mode (gn s) = MOTION_MODE_CCW_ARC))
       (\<lambda>s. Cm_arc_feed (target (gn s) ! X) (target (gn s) ! Y) (target (gn s) ! Z)
               (offset (gn s) ! 0) (offset (gn s) ! 1) (offset (gn s) ! 2)
               (radius (gn s)) (motion_mode (gn s)))
       (\<lambda>s. s)))))))))))))))"

text \<open>
  \<open>_gc_parse_gcode_block\<close>: clear \<open>gn\<close> and \<open>gf\<close>, pre-set the next action, the motion
  mode and the target from the canonical machine, run the statement loop, then return
  what \<open>_gc_execute_gcode_block\<close> returns.
\<close>

definition preset_target :: "'m canonical_machine \<Rightarrow> 'm state \<Rightarrow> 'm state" where
  "preset_target cm s =
     fold (\<lambda>i s. s\<lparr>gn := (gn s)\<lparr>target := (target (gn s))[i := cm_get_position cm i (gm s)]\<rparr>\<rparr>)
       [X..<Suc Z] s"

definition parse_init :: "'m canonical_machine \<Rightarrow> 'm state \<Rightarrow> 'm state" where
  "parse_init cm s =
     (let s1 = s\<lparr>gn := zero_model, gf := zero_flags\<rparr>;
          s2 = s1\<lparr>gn := (gn s1)\<lparr>next_action := cm_get_next_action cm (gm s1)\<rparr>\<rparr>;
          s3 = s2\<lparr>gn := (gn s2)\<lparr>motion_mode := cm_get_motion_mode cm (gm s2)\<rparr>\<rparr>
      in set_status TG_OK (preset_target cm s3))"

definition gc_parse_gcode_block ::
  "strtod \<Rightarrow> 'm canonical_machine \<Rightarrow> string \<Rightarrow> 'm state \<Rightarrow> (status \<times> 'm state) option"
where
  "gc_parse_gcode_block strtod cm buf s =
     do {
       s1 \<leftarrow> parse_loop strtod buf 0 (parse_init cm s);
       let s2 = gc_execute_gcode_block cm s1 in
       Some (status (gp s2), s2)
     }"

subsection \<open>The entry point\<close>

text \<open>
  \<open>gc_gcode_parser\<close>: the returned status, the buffer as the call leaves it, and the
  state.
\<close>

definition gc_gcode_parser ::
  "strtod \<Rightarrow> 'm canonical_machine \<Rightarrow> bool \<Rightarrow> string \<Rightarrow> 'm state \<Rightarrow>
   (status \<times> string \<times> 'm state) option"
where
  "gc_gcode_parser strtod cm schar block s =
     do {
       (b, s1) \<leftarrow> gc_normalize_gcode_block cm schar block s;
       c \<leftarrow> peek b 0;
       if c = NUL then Some (TG_OK, b, s1)
       else if c = CHR ''Q'' then Some (TG_QUIT, b, s1)
       else do {
         (r, s2) \<leftarrow> gc_parse_gcode_block strtod cm b s1;
         let s3 = (if r \<noteq> TG_OK then s2\<lparr>printed := printed s2 @ [(status (gp s2), cstr b)]\<rparr>
                   else s2)
         in Some (status (gp s3), b, s3)
       }
     }"

subsection \<open>A line in its buffer, a decimal \<open>strtod\<close> and a test machine\<close>

text \<open>The array that holds exactly the line and its terminating NUL.\<close>

definition line :: "string \<Rightarrow> string" where
  "line cs = cs @ [NUL]"

text \<open>
  The decimal numbers of \<open>strtod\<close>: an optional sign, digits, an optional point and
  digits, with a digit somewhere. (The library function also reads exponents,
  infinities and NaN; the lines evaluated below have none.)
\<close>

definition digit_val :: "char \<Rightarrow> nat" where
  "digit_val c = code c - 48"

definition decimal :: "string \<Rightarrow> nat" where
  "decimal ds = foldl (\<lambda>n c. 10 * n + digit_val c) 0 ds"

definition strtod_decimal :: strtod where
  "strtod_decimal cs =
     (let signed = (cs \<noteq> [] \<and> (hd cs = CHR ''-'' \<or> hd cs = CHR ''+''));
          neg = (cs \<noteq> [] \<and> hd cs = CHR ''-'');
          r0 = (if signed then tl cs else cs);
          ip = takeWhile isdigit r0;
          r1 = dropWhile isdigit r0;
          point = (r1 \<noteq> [] \<and> hd r1 = CHR ''.'');
          fp = (if point then takeWhile isdigit (tl r1) else []);
          m = of_nat (decimal ip) + of_nat (decimal fp) / 10 ^ length fp
      in if ip = [] \<and> fp = [] then (0, 0)
         else (if neg then - m else m,
               (if signed then 1 else 0) + length ip + (if point then 1 + length fp else 0)))"

text \<open>
  A canonical machine for running the interpreter on concrete lines: \<open>verdict\<close> is the
  status each call returns, and the state keeps the calls that returned \<open>TG_OK\<close>.
\<close>

record test_gm =
  t_next_action :: next_action
  t_motion_mode :: motion_mode
  t_position :: "rat list"
  t_done :: "cm_call list"

definition test_cm :: "(cm_call \<Rightarrow> status) \<Rightarrow> test_gm canonical_machine" where
  "test_cm verdict =
     \<lparr>cm_get_next_action = t_next_action,
      cm_get_motion_mode = t_motion_mode,
      cm_get_position = (\<lambda>i m. t_position m ! i),
      cm_run = (\<lambda>c m. (verdict c, if verdict c = TG_OK then m\<lparr>t_done := t_done m @ [c]\<rparr> else m))\<rparr>"

definition gm0 :: test_gm where
  "gm0 = \<lparr>t_next_action = NEXT_ACTION_NONE, t_motion_mode = MOTION_MODE_STRAIGHT_TRAVERSE,
          t_position = [0, 0, 0], t_done = []\<rparr>"

definition state0 :: "'m \<Rightarrow> 'm state" where
  "state0 m =
     \<lparr>gp = \<lparr>letter = NUL, val = 0, fraction = 0, status = TG_OK\<rparr>,
      gn = zero_model, gf = zero_flags, gm = m, calls = [], printed = []\<rparr>"

text \<open>What a call of the entry point shows: the status, the C string left, the calls made.\<close>

definition outcome ::
  "(status \<times> string \<times> 'm state) option \<Rightarrow> (status \<times> string \<times> (cm_call \<times> status) list) option"
where
  "outcome r = map_option (\<lambda>(st, b, s). (st, cstr b, calls s)) r"

definition accept :: "cm_call \<Rightarrow> status" where
  "accept c = TG_OK"

definition spindle_fails :: "cm_call \<Rightarrow> status" where
  "spindle_fails c =
     (if c = Cm_start_spindle_clockwise \<or> c = Cm_start_spindle_counterclockwise
         \<or> c = Cm_stop_spindle_turning
      then TG_ERROR 1 else TG_OK)"

subsection \<open>The dispatcher as a table\<close>

text \<open>
  The order of execution as data: one row for each call of \<open>_gc_execute_gcode_block\<close>,
  in the order of the C text, with the condition the C text tests before the call
  (for the tool change of row 5 that is \<open>gf.tool\<close>, as the macro call is written,
  not the flag that M6 sets). \<open>plan\<close> keeps the calls whose condition holds.
\<close>

definition table :: "GCodeModel \<Rightarrow> GCodeFlags \<Rightarrow> (bool \<times> cm_call) list" where
  "table g f =
    [(f_inverse_feed_rate_mode f, Cm_set_inverse_feed_rate_mode (inverse_feed_rate_mode g)),
     (f_feed_rate f, Cm_set_feed_rate (feed_rate g)),
     (f_spindle_speed f, Cm_set_spindle_speed (spindle_speed g)),
     (f_tool f, Cm_select_tool (tool g)),
     (f_tool f, Cm_change_tool (tool g)),
     (f_spindle_mode f,
        (if spindle_mode g = SPINDLE_CW then Cm_start_spindle_clockwise
         else if spindle_mode g = SPINDLE_CCW then Cm_start_spindle_counterclockwise
         else Cm_stop_spindle_turning)),
     (next_action g = NEXT_ACTION_DWELL, Cm_dwell (dwell_time g)),
     (f_set_plane f, Cm_select_plane (set_plane g)),
     (f_inches_mode f, Cm_use_length_units (inches_mode g)),
     (f_absolute_mode f, Cm_set_distance_mode (absolute_mode g)),
     (next_action g = NEXT_ACTION_GO_HOME, Cm_return_to_home),
     (next_action g = NEXT_ACTION_OFFSET_COORDINATES,
        Cm_set_origin_offsets (target g ! X) (target g ! Y) (target g ! Z)),
     (next_action g = NEXT_ACTION_MOTION \<and> motion_mode g = MOTION_MODE_STRAIGHT_TRAVERSE,
        Cm_straight_traverse (target g ! X) (target g ! Y) (target g ! Z)),
     (next_action g = NEXT_ACTION_MOTION \<and> motion_mode g = MOTION_MODE_STRAIGHT_FEED,
        Cm_straight_feed (target g ! X) (target g ! Y) (target g ! Z)),
     (next_action g = NEXT_ACTION_MOTION
        \<and> (motion_mode g = MOTION_MODE_CW_ARC \<or> motion_mode g = MOTION_MODE_CCW_ARC),
        Cm_arc_feed (target g ! X) (target g ! Y) (target g ! Z)
          (offset g ! 0) (offset g ! 1) (offset g ! 2) (radius g) (motion_mode g))]"

definition plan :: "GCodeModel \<Rightarrow> GCodeFlags \<Rightarrow> cm_call list" where
  "plan g f = map snd (filter fst (table g f))"

text \<open>
  What the dispatcher does with the status of a call: it tests it and returns when it
  is not \<open>TG_OK\<close> (\<open>Checked\<close>), it drops it (\<open>Ignored\<close>, the spindle calls), or it
  returns it at once (\<open>Terminal\<close>, the motion calls).
\<close>

datatype kind = Checked | Ignored | Terminal

definition is_motion :: "cm_call \<Rightarrow> bool" where
  "is_motion c =
     (case c of Cm_straight_traverse x y z \<Rightarrow> True | Cm_straight_feed x y z \<Rightarrow> True
      | Cm_arc_feed x y z i j k r m \<Rightarrow> True | _ \<Rightarrow> False)"

definition is_spindle :: "cm_call \<Rightarrow> bool" where
  "is_spindle c =
     (c = Cm_start_spindle_clockwise \<or> c = Cm_start_spindle_counterclockwise
      \<or> c = Cm_stop_spindle_turning)"

definition is_change_tool :: "cm_call \<Rightarrow> bool" where
  "is_change_tool c = (case c of Cm_change_tool t \<Rightarrow> True | _ \<Rightarrow> False)"

definition is_set_origin_offsets :: "cm_call \<Rightarrow> bool" where
  "is_set_origin_offsets c = (case c of Cm_set_origin_offsets x y z \<Rightarrow> True | _ \<Rightarrow> False)"

definition kind_of :: "cm_call \<Rightarrow> kind" where
  "kind_of c = (if is_motion c then Terminal else if is_spindle c then Ignored else Checked)"

text \<open>The step of the order of execution (section 4.4 of the specification) of a call.\<close>

definition step_of :: "cm_call \<Rightarrow> nat" where
  "step_of c =
     (case c of
        Cm_message m \<Rightarrow> 0
      | Cm_set_inverse_feed_rate_mode b \<Rightarrow> 1
      | Cm_set_feed_rate v \<Rightarrow> 2
      | Cm_set_spindle_speed v \<Rightarrow> 3
      | Cm_select_tool t \<Rightarrow> 4
      | Cm_change_tool t \<Rightarrow> 5
      | Cm_start_spindle_clockwise \<Rightarrow> 6
      | Cm_start_spindle_counterclockwise \<Rightarrow> 6
      | Cm_stop_spindle_turning \<Rightarrow> 6
      | Cm_dwell v \<Rightarrow> 7
      | Cm_select_plane p \<Rightarrow> 8
      | Cm_use_length_units b \<Rightarrow> 9
      | Cm_set_distance_mode b \<Rightarrow> 10
      | Cm_return_to_home \<Rightarrow> 11
      | Cm_set_origin_offsets x y z \<Rightarrow> 12
      | Cm_straight_traverse x y z \<Rightarrow> 13
      | Cm_straight_feed x y z \<Rightarrow> 13
      | Cm_arc_feed x y z i j k r m \<Rightarrow> 13)"

text \<open>
  \<open>stops c st\<close>: the dispatcher returns after the call \<open>c\<close> that returned \<open>st\<close>.
  \<open>trace\<close> is the list of calls, each with its status, that running a list of calls
  in this way makes from a state of the machine; \<open>replay\<close> is the state of the
  machine after a list of calls.
\<close>

definition stops :: "cm_call \<Rightarrow> status \<Rightarrow> bool" where
  "stops c st = (kind_of c = Terminal \<or> (kind_of c = Checked \<and> st \<noteq> TG_OK))"

fun trace :: "'m canonical_machine \<Rightarrow> cm_call list \<Rightarrow> 'm \<Rightarrow> (cm_call \<times> status) list" where
  "trace cm [] m = []"
| "trace cm (c # cs) m =
     (c, fst (cm_run cm c m))
       # (if stops c (fst (cm_run cm c m)) then [] else trace cm cs (snd (cm_run cm c m)))"

fun replay :: "'m canonical_machine \<Rightarrow> cm_call list \<Rightarrow> 'm \<Rightarrow> 'm" where
  "replay cm [] m = m"
| "replay cm (c # cs) m = replay cm cs (snd (cm_run cm c m))"

text \<open>Running a list of calls on the program state, the way the dispatcher does.\<close>

fun run_plan :: "'m canonical_machine \<Rightarrow> cm_call list \<Rightarrow> 'm state \<Rightarrow> 'm state" where
  "run_plan cm [] s = s"
| "run_plan cm (c # cs) s =
     (let (st, s1) = cm_call cm c s in
      case kind_of c of
        Checked \<Rightarrow> (let s2 = set_status st s1 in if st \<noteq> TG_OK then s2 else run_plan cm cs s2)
      | Ignored \<Rightarrow> run_plan cm cs s1
      | Terminal \<Rightarrow> set_status st s1)"

text \<open>The status a list of calls leaves in \<open>gp.status\<close>: that of the last call not ignored.\<close>

fun final_status :: "status \<Rightarrow> (cm_call \<times> status) list \<Rightarrow> status" where
  "final_status st [] = st"
| "final_status st ((c, r) # cs) = final_status (if kind_of c = Ignored then st else r) cs"

text \<open>The block of the lines \<open>F100G0X10\<close> and \<open>G0X10F100\<close>, as the statement loop leaves it.\<close>

definition example_block :: "test_gm state" where
  "example_block =
     (state0 gm0)
       \<lparr>gn := zero_model\<lparr>next_action := NEXT_ACTION_MOTION, feed_rate := 100,
                           target := [10, 0, 0]\<rparr>,
        gf := zero_flags\<lparr>f_next_action := True, f_motion_mode := True, f_feed_rate := True,
                           f_target := [True, False, False]\<rparr>\<rparr>"

text \<open>The rows of the three motion calls, the last of the table.\<close>

definition motion_rows :: "GCodeModel \<Rightarrow> GCodeFlags \<Rightarrow> (bool \<times> cm_call) list" where
  "motion_rows g f = drop 12 (table g f)"

text \<open>The statuses that reading and collecting the statements can leave in \<open>gp.status\<close>.\<close>

definition parse_status :: "status \<Rightarrow> bool" where
  "parse_status st =
     (st = TG_OK \<or> st = TG_EXPECTED_COMMAND_LETTER \<or> st = TG_BAD_NUMBER_FORMAT
      \<or> st = TG_UNSUPPORTED_STATEMENT)"

subsection \<open>The normalized line, from the words of the specification\<close>

text \<open>
  What section 4.1 of the specification says of a line \<open>cs\<close> (without its NUL): the
  characters before the first opening parenthesis are converted to upper case and the
  discarded ones are left out; the comment is the text after that parenthesis; a
  comment that begins with MSG gives a message, the text after MSG up to the first
  closing parenthesis; a line that begins with a slash is deleted.
\<close>

definition kept :: "bool \<Rightarrow> char \<Rightarrow> bool" where
  "kept schar c =
     (isupper c \<or> isdigit c
      \<or> (\<not> le_space schar c \<and> c \<noteq> DEL \<and> c \<notin> set invalid_punctuation))"

definition command :: "bool \<Rightarrow> string \<Rightarrow> string" where
  "command schar cs = filter (kept schar) (map toupper (takeWhile (\<lambda>c. c \<noteq> CHR ''('') cs))"

definition comment_text :: "string \<Rightarrow> string option" where
  "comment_text cs =
     (if CHR ''('' \<in> set cs then Some (tl (dropWhile (\<lambda>c. c \<noteq> CHR ''('') cs)) else None)"

definition msg_prefix :: "string \<Rightarrow> bool" where
  "msg_prefix com = (3 \<le> length com \<and> map toupper (take 3 com) = ''MSG'')"

definition block_deleted :: "string \<Rightarrow> bool" where
  "block_deleted cs = (cs \<noteq> [] \<and> hd cs = CHR ''/'')"

definition message_of :: "string \<Rightarrow> string option" where
  "message_of cs =
     (if block_deleted cs then None
      else case comment_text cs of
             None \<Rightarrow> None
           | Some com \<Rightarrow>
               if msg_prefix com then Some (takeWhile (\<lambda>c. c \<noteq> CHR '')'') (drop 3 com))
               else None)"

definition normalized :: "bool \<Rightarrow> string \<Rightarrow> string" where
  "normalized schar cs = (if block_deleted cs then [] else command schar cs)"

text \<open>
  The copying loop as a function of the characters still to read, for a line short
  enough that no index wraps.
\<close>

fun copy_loop :: "bool \<Rightarrow> nat \<Rightarrow> nat \<Rightarrow> string \<Rightarrow> string \<Rightarrow> nat \<times> nat option \<times> string" where
  "copy_loop schar i j [] block = (j, None, block)"
| "copy_loop schar i j (c0 # rest) block =
     (if isupper (toupper c0) \<or> isdigit (toupper c0) then
        copy_loop schar (Suc i) (Suc j) rest (block[j := toupper c0])
      else if toupper c0 = CHR ''('' then (j, Some (Suc i), block[j := NUL])
      else if le_space schar (toupper c0) \<or> toupper c0 = DEL
              \<or> toupper c0 \<in> set invalid_punctuation then
        copy_loop schar (Suc i) j rest block
      else copy_loop schar (Suc i) (Suc j) rest (block[j := toupper c0]))"

text \<open>Sending the message of a line, when it has one, to the canonical machine.\<close>

definition emit :: "'m canonical_machine \<Rightarrow> string option \<Rightarrow> 'm state \<Rightarrow> 'm state" where
  "emit cm m s = (case m of None \<Rightarrow> s | Some msg \<Rightarrow> snd (cm_call cm (Cm_message msg) s))"

text \<open>
  The characters section 4.1 of the specification allows in a normalized command, and
  the punctuation that the copying loop lets through.
\<close>

definition claimed_char :: "char \<Rightarrow> bool" where
  "claimed_char c = (isupper c \<or> isdigit c \<or> c \<in> set ''+-./*<=>|%#()[]{}'')"

definition passed_punctuation :: string where
  "passed_punctuation =
     [CHR ''+'', CHR ''-'', CHR ''.'', CHR ''/'', CHR ''*'', CHR ''<'', CHR ''='', CHR ''>'',
      CHR ''|'', CHR ''#'', CHR '')'', CHR ''['', CHR '']'', CHR ''{'', CHR ''}'', CHR ''&'',
      CHR 0x5C]"

definition passed_char :: "bool \<Rightarrow> char \<Rightarrow> bool" where
  "passed_char schar c =
     (isupper c \<or> isdigit c \<or> c \<in> set passed_punctuation \<or> (128 \<le> code c \<and> schar = False))"

text \<open>A canonical machine whose spindle calls and plane selection fail.\<close>

definition spindle_and_plane_fail :: "cm_call \<Rightarrow> status" where
  "spindle_and_plane_fail c =
     (case c of
        Cm_start_spindle_clockwise \<Rightarrow> TG_ERROR 2
      | Cm_start_spindle_counterclockwise \<Rightarrow> TG_ERROR 2
      | Cm_stop_spindle_turning \<Rightarrow> TG_ERROR 2
      | Cm_select_plane p \<Rightarrow> TG_ERROR 1
      | _ \<Rightarrow> TG_OK)"

subsection \<open>Repeated calls of the tokenizer\<close>








section \<open>Properties\<close>

subsection \<open>Running the model on a concrete line\<close>

text \<open>
  The recursive equations of the loops with the recursive call below a \<open>case\<close>, so
  that the simplifier unfolds a loop only after it has evaluated the step before.
\<close>

lemma bind_case: "(m \<bind> f) = (case m of None \<Rightarrow> None | Some x \<Rightarrow> f x)"
  by (cases m) simp_all

lemma normalize_loop_step:
  "normalize_loop schar i j block =
     (case peek block i of None \<Rightarrow> None
      | Some c0 \<Rightarrow>
         if toupper c0 = NUL then Some (j, None, block)
         else if isupper (toupper c0) \<or> isdigit (toupper c0) then
           (case poke block j (toupper c0) of None \<Rightarrow> None
            | Some b \<Rightarrow> normalize_loop schar (incr8 i) (incr8 j) b)
         else if toupper c0 = CHR ''('' then
           (case poke block j NUL of None \<Rightarrow> None | Some b \<Rightarrow> Some (j, Some (incr8 i), b))
         else if le_space schar (toupper c0) then normalize_loop schar (incr8 i) j block
         else if toupper c0 = DEL then normalize_loop schar (incr8 i) j block
         else if toupper c0 \<in> set invalid_punctuation then normalize_loop schar (incr8 i) j block
         else (case poke block j (toupper c0) of None \<Rightarrow> None
               | Some b \<Rightarrow> normalize_loop schar (incr8 i) (incr8 j) b))"
  by (subst normalize_loop.simps) (simp add: bind_case Let_def split: option.split)

lemma strip_paren_loop_step:
  "strip_paren_loop k i block =
     (case peek block (k + i) of None \<Rightarrow> None
      | Some c \<Rightarrow>
         if c = NUL then Some block
         else if c = CHR '')'' then poke block (k + decr8 (incr8 i)) NUL
         else strip_paren_loop k (incr8 i) block)"
  by (subst strip_paren_loop.simps) (simp add: bind_case Let_def split: option.split)

lemma parse_loop_step:
  "parse_loop strtod buf i s =
     (case gc_next_statement strtod buf i (gp s) of None \<Rightarrow> None
      | Some (go, i1, p) \<Rightarrow>
          if \<not> go then Some (s\<lparr>gp := p\<rparr>)
          else if status (gp (parse_statement (s\<lparr>gp := p\<rparr>))) \<noteq> TG_OK
               then Some (parse_statement (s\<lparr>gp := p\<rparr>))
               else parse_loop strtod buf i1 (parse_statement (s\<lparr>gp := p\<rparr>)))"
  by (subst parse_loop.simps) (simp add: bind_case Let_def split: option.split prod.split)

lemma char_eq_char_of: "c = char_of n \<longleftrightarrow> take_bit 8 n = (of_char c :: nat)"
  using char_of_eq_iff [of n c] by (rule subst [rotated]) (rule eq_commute)

lemmas char_eval = NUL_def DEL_def code_def isupper_def islower_def isdigit_def toupper_def
  le_space_def invalid_punctuation_def incr8_def decr8_def peek_def poke_def cstr_def cstr_at_def
  line_def char_of_eq_iff char_eq_char_of

lemmas norm_eval = gc_normalize_gcode_block_def normalize_loop_step strip_paren_loop_step
  is_msg_def cm_call_def Let_def

lemmas token_eval = gc_next_statement_def gc_read_double_def strtod_decimal_def decimal_def
  digit_val_def trunc_def

lemma preset_target_unroll:
  "preset_target cm s =
     s\<lparr>gn := (gn s)\<lparr>target := (target (gn s))
        [0 := cm_get_position cm 0 (gm s), 1 := cm_get_position cm 1 (gm s),
         2 := cm_get_position cm 2 (gm s)]\<rparr>\<rparr>"
  by (simp add: preset_target_def X_def Z_def upt_rec numeral_2_eq_2)

lemmas parse_eval = Let_def gc_parse_gcode_block_def parse_loop_step parse_init_def preset_target_unroll
  parse_statement_def parse_G_def parse_M_def SET_NEXT_ACTION_MOTION_def set_status_def
  zero_model_def zero_flags_def X_def Y_def Z_def

lemmas exec_eval = gc_execute_gcode_block_def CALL_CM_FUNC_def spindle_on_or_off_def
  motion_step_def

lemmas test_eval = test_cm_def gm0_def state0_def accept_def spindle_fails_def outcome_def


subsection \<open>The dispatcher runs its table\<close>

lemma cm_call_block [simp]:
  "gn (snd (cm_call cm c s)) = gn s" "gf (snd (cm_call cm c s)) = gf s"
  "gp (snd (cm_call cm c s)) = gp s" "printed (snd (cm_call cm c s)) = printed s"
  by (simp_all add: cm_call_def split: prod.split)

lemma cm_call_effect [simp]:
  "fst (cm_call cm c s) = fst (cm_run cm c (gm s))"
  "gm (snd (cm_call cm c s)) = snd (cm_run cm c (gm s))"
  "calls (snd (cm_call cm c s)) = calls s @ [(c, fst (cm_run cm c (gm s)))]"
  by (simp_all add: cm_call_def split: prod.split)

lemma set_status_block [simp]:
  "gn (set_status st s) = gn s" "gf (set_status st s) = gf s" "gm (set_status st s) = gm s"
  "calls (set_status st s) = calls s" "printed (set_status st s) = printed s"
  "status (gp (set_status st s)) = st"
  by (simp_all add: set_status_def)

lemma CALL_CM_FUNC_plan:
  assumes "\<And>s'. gn s' = g \<Longrightarrow> gf s' = f \<Longrightarrow> k s' = run_plan cm (map snd (filter fst tbl)) s'"
    and "gn s = g" and "gf s = f" and "kind_of (d g f) = Checked"
  shows "CALL_CM_FUNC cm (\<lambda>s. c (gn s) (gf s)) (\<lambda>s. d (gn s) (gf s)) k s
          = run_plan cm (map snd (filter fst ((c g f, d g f) # tbl))) s"
proof -
  obtain st s1 where r: "cm_call cm (d g f) s = (st, s1)" by (cases "cm_call cm (d g f) s")
  have "gn s1 = g" "gf s1 = f" using cm_call_block(1,2) [of cm "d g f" s] r assms(2,3) by simp_all
  then show ?thesis using assms r by (simp add: CALL_CM_FUNC_def Let_def)
qed

lemma spindle_plan:
  assumes "\<And>s'. gn s' = g \<Longrightarrow> gf s' = f \<Longrightarrow> k s' = run_plan cm (map snd (filter fst tbl)) s'"
    and "gn s = g" and "gf s = f"
  shows "spindle_on_or_off cm k s
          = run_plan cm (map snd (filter fst ((f_spindle_mode f,
              (if spindle_mode g = SPINDLE_CW then Cm_start_spindle_clockwise
               else if spindle_mode g = SPINDLE_CCW then Cm_start_spindle_counterclockwise
               else Cm_stop_spindle_turning)) # tbl))) s"
  using assms
  by (simp add: spindle_on_or_off_def kind_of_def is_motion_def is_spindle_def split: prod.split)

lemma motion_plan:
  assumes "\<And>s'. gn s' = g \<Longrightarrow> gf s' = f \<Longrightarrow> k s' = run_plan cm (map snd (filter fst tbl)) s'"
    and "gn s = g" and "gf s = f" and "kind_of (d g f) = Terminal"
  shows "motion_step cm (\<lambda>s. c (gn s) (gf s)) (\<lambda>s. d (gn s) (gf s)) k s
          = run_plan cm (map snd (filter fst ((c g f, d g f) # tbl))) s"
  using assms by (simp add: motion_step_def split: prod.split)

lemma execute_plan_aux:
  assumes "gn s = g" and "gf s = f"
  shows "gc_execute_gcode_block cm s = run_plan cm (map snd (filter fst (table g f))) s"
  unfolding gc_execute_gcode_block_def table_def
  by (rule CALL_CM_FUNC_plan spindle_plan motion_plan assms
      | simp add: kind_of_def is_motion_def is_spindle_def)+

lemma execute_plan: "gc_execute_gcode_block cm s = run_plan cm (plan (gn s) (gf s)) s"
  by (simp add: plan_def execute_plan_aux)

lemma run_plan_block [simp]:
  "gn (run_plan cm p s) = gn s" "gf (run_plan cm p s) = gf s"
  "printed (run_plan cm p s) = printed s"
  by (induction p arbitrary: s; simp add: case_prod_beta Let_def split: kind.split)+

lemma run_plan_calls: "calls (run_plan cm p s) = calls s @ trace cm p (gm s)"
  by (induction p arbitrary: s) (simp_all add: stops_def case_prod_beta Let_def split: kind.split)

lemma run_plan_gm: "gm (run_plan cm p s) = replay cm (map fst (trace cm p (gm s))) (gm s)"
  by (induction p arbitrary: s) (simp_all add: stops_def case_prod_beta Let_def split: kind.split)

lemma run_plan_status:
  "status (gp (run_plan cm p s)) = final_status (status (gp s)) (trace cm p (gm s))"
  by (induction p arbitrary: s) (simp_all add: stops_def case_prod_beta Let_def split: kind.split)

subsection \<open>Traces\<close>

lemma trace_prefix: "prefix (map fst (trace cm p m)) p"
  by (induction p arbitrary: m) simp_all

lemma stops_not_Ignored: "stops c st \<Longrightarrow> kind_of c \<noteq> Ignored"
  by (auto simp: stops_def)

lemma trace_stops_last:
  "i < length (trace cm p m) \<Longrightarrow> stops (fst (trace cm p m ! i)) (snd (trace cm p m ! i))
   \<Longrightarrow> Suc i = length (trace cm p m) \<and> final_status st (trace cm p m) = snd (trace cm p m ! i)"
proof (induction p arbitrary: m i st)
  case Nil
  then show ?case by simp
next
  case (Cons c cs)
  let ?r = "fst (cm_run cm c m)" and ?m = "snd (cm_run cm c m)"
  show ?case
  proof (cases i)
    case 0
    with Cons.prems show ?thesis by (auto simp: stops_not_Ignored)
  next
    case (Suc n)
    with Cons.prems have ns: "\<not> stops c ?r"
      by (auto split: if_splits)
    then have t: "trace cm (c # cs) m = (c, ?r) # trace cm cs ?m" by simp
    from Cons.prems Suc have n: "n < length (trace cm cs ?m)"
      and sn: "stops (fst (trace cm cs ?m ! n)) (snd (trace cm cs ?m ! n))"
      unfolding t by simp_all
    have nth: "((c, ?r) # trace cm cs ?m) ! Suc n = trace cm cs ?m ! n"
      and len: "length ((c, ?r) # trace cm cs ?m) = Suc (length (trace cm cs ?m))"
      and fin: "final_status st ((c, ?r) # trace cm cs ?m)
                 = final_status (if kind_of c = Ignored then st else ?r) (trace cm cs ?m)"
      by simp_all
    from Cons.IH [OF n sn, of "if kind_of c = Ignored then st else ?r"]
    show ?thesis unfolding t Suc nth len fin by blast
  qed
qed

lemma trace_complete:
  "\<forall>x\<in>set (trace cm p m). \<not> stops (fst x) (snd x) \<Longrightarrow> map fst (trace cm p m) = p"
  by (induction p arbitrary: m) (auto split: if_splits)

lemma trace_status:
  "i < length (trace cm p m) \<Longrightarrow>
   snd (trace cm p m ! i)
     = fst (cm_run cm (fst (trace cm p m ! i)) (replay cm (map fst (take i (trace cm p m))) m))"
proof (induction p arbitrary: m i)
  case Nil
  then show ?case by simp
next
  case (Cons c cs)
  show ?case
  proof (cases i)
    case 0
    then show ?thesis by simp
  next
    case (Suc n)
    with Cons.prems have ns: "\<not> stops c (fst (cm_run cm c m))"
      by (auto split: if_splits)
    with Cons.prems Suc Cons.IH [of n "snd (cm_run cm c m)"] show ?thesis
      by simp
  qed
qed

subsection \<open>The plan\<close>

lemma table_sorted: "sorted_wrt (\<lambda>x y. step_of (snd x) \<le> step_of (snd y)) (table g f)"
  by (simp add: table_def step_of_def)

lemma plan_sorted: "sorted (map step_of (plan g f))"
  unfolding plan_def
  by (simp add: sorted_wrt_map sorted_wrt_filter table_sorted)

lemma plan_member: "c \<in> set (plan g f) \<longleftrightarrow> (True, c) \<in> set (table g f)"
  by (auto simp: plan_def image_iff)

lemma plan_origin_offsets:
  "c \<in> set (plan g f) \<Longrightarrow> is_set_origin_offsets c
   \<Longrightarrow> next_action g = NEXT_ACTION_OFFSET_COORDINATES"
  by (auto simp: plan_member table_def is_set_origin_offsets_def split: if_splits)

lemma plan_change_tool: "(\<exists>c\<in>set (plan g f). is_change_tool c) \<longleftrightarrow> f_tool f"
proof
  assume "\<exists>c\<in>set (plan g f). is_change_tool c"
  then show "f_tool f"
    by (auto simp: plan_member table_def is_change_tool_def split: if_splits)
next
  assume "f_tool f"
  then have "Cm_change_tool (tool g) \<in> set (plan g f)"
    by (simp add: plan_member table_def)
  then show "\<exists>c\<in>set (plan g f). is_change_tool c"
    by (rule bexI [rotated]) (simp add: is_change_tool_def)
qed

lemmas plan_eval = execute_plan plan_def table_def kind_of_def is_motion_def is_spindle_def

lemmas line_eval = gc_gcode_parser_def char_eval norm_eval token_eval parse_eval plan_eval test_eval

subsection \<open>The statement loop leaves the canonical machine alone\<close>

lemma parse_statement_keeps [simp]:
  "calls (parse_statement s) = calls s" "gm (parse_statement s) = gm s"
  "printed (parse_statement s) = printed s"
  by (simp_all add: parse_statement_def parse_G_def parse_M_def SET_NEXT_ACTION_MOTION_def
      set_status_def Let_def)

lemma parse_statement_next_action:
  "next_action (gn (parse_statement s)) \<noteq> NEXT_ACTION_OFFSET_COORDINATES
   \<or> next_action (gn s) = NEXT_ACTION_OFFSET_COORDINATES"
  by (simp add: parse_statement_def parse_G_def parse_M_def SET_NEXT_ACTION_MOTION_def
      set_status_def Let_def)

lemma parse_loop_keeps:
  assumes "parse_loop strtod buf i s = Some s'"
  shows "calls s' = calls s \<and> gm s' = gm s \<and> printed s' = printed s
   \<and> (next_action (gn s') = NEXT_ACTION_OFFSET_COORDINATES
        \<longrightarrow> next_action (gn s) = NEXT_ACTION_OFFSET_COORDINATES)"
proof (rule parse_loop.raw_induct [OF _ assms], goal_cases)
  case (1 loop strtod buf i s s')
  note IH = 1(1) and body = 1(2)
  from body obtain go i1 p where
    ns: "gc_next_statement strtod buf i (gp s) = Some (go, i1, p)"
    by (cases "gc_next_statement strtod buf i (gp s)") auto
  let ?s1 = "s\<lparr>gp := p\<rparr>"
  show ?case
  proof (cases "go \<and> status (gp (parse_statement ?s1)) = TG_OK")
    case True
    with body ns have "loop strtod buf i1 (parse_statement ?s1) = Some s'"
      by (simp add: Let_def)
    from IH [OF this] parse_statement_next_action [of ?s1] show ?thesis by auto
  next
    case False
    with body ns have "s' = ?s1 \<or> s' = parse_statement ?s1"
      by (auto simp: Let_def split: if_splits)
    with parse_statement_next_action [of ?s1] show ?thesis by auto
  qed
qed

lemma parse_init_keeps [simp]:
  "calls (parse_init cm s) = calls s" "gm (parse_init cm s) = gm s"
  "printed (parse_init cm s) = printed s"
  "next_action (gn (parse_init cm s)) = cm_get_next_action cm (gm s)"
  by (simp_all add: parse_init_def preset_target_unroll Let_def)

lemma parse_block_calls:
  assumes "gc_parse_gcode_block strtod cm buf s = Some (r, s')"
  obtains s1 where "parse_loop strtod buf 0 (parse_init cm s) = Some s1"
    and "s' = gc_execute_gcode_block cm s1" and "r = status (gp s')"
    and "calls s1 = calls s" and "gm s1 = gm s"
    and "next_action (gn s1) = NEXT_ACTION_OFFSET_COORDINATES
         \<longrightarrow> cm_get_next_action cm (gm s) = NEXT_ACTION_OFFSET_COORDINATES"
proof -
  from assms obtain s1 where l: "parse_loop strtod buf 0 (parse_init cm s) = Some s1"
    and e: "s' = gc_execute_gcode_block cm s1" "r = status (gp s')"
    by (auto simp: gc_parse_gcode_block_def Let_def split: bind_splits)
  from parse_loop_keeps [OF l] show ?thesis using that [OF l e] by simp
qed


lemma execute_trace:
  "calls (gc_execute_gcode_block cm s) = calls s @ trace cm (plan (gn s) (gf s)) (gm s)"
  "gm (gc_execute_gcode_block cm s)
     = replay cm (map fst (trace cm (plan (gn s) (gf s)) (gm s))) (gm s)"
  "status (gp (gc_execute_gcode_block cm s))
     = final_status (status (gp s)) (trace cm (plan (gn s) (gf s)) (gm s))"
  by (simp_all add: execute_plan run_plan_calls run_plan_gm run_plan_status)

lemma stops_unless_spindle: "st \<noteq> TG_OK \<Longrightarrow> \<not> is_spindle c \<Longrightarrow> stops c st"
  by (simp add: stops_def kind_of_def)


lemmas block_eval = char_eval token_eval parse_eval plan_eval test_eval cm_call_def

subsection \<open>Motion calls in the plan\<close>

lemma table_split: "table g f = take 12 (table g f) @ motion_rows g f"
  by (simp add: motion_rows_def)

lemma plan_split:
  "plan g f = map snd (filter fst (take 12 (table g f))) @ map snd (filter fst (motion_rows g f))"
  unfolding plan_def by (subst table_split) simp

lemma in_rows: "c \<in> set (map snd (filter fst xs)) \<longleftrightarrow> (True, c) \<in> set xs"
  by (auto simp: image_iff)

lemma no_motion_before:
  "c \<in> set (map snd (filter fst (take 12 (table g f)))) \<Longrightarrow> \<not> is_motion c"
  unfolding in_rows by (auto simp: table_def is_motion_def split: if_splits)

lemma one_motion: "length (map snd (filter fst (motion_rows g f))) \<le> 1"
  by (simp add: motion_rows_def table_def)

lemma plan_after_motion:
  assumes "plan g f = xs @ c # ys" and "is_motion c"
  shows "ys = []"
proof -
  let ?a = "map snd (filter fst (take 12 (table g f)))"
  let ?b = "map snd (filter fst (motion_rows g f))"
  from assms(1) have "?a @ ?b = xs @ c # ys" by (simp add: plan_split [symmetric])
  then consider us where "?a = xs @ us" "us @ ?b = c # ys"
    | us where "?a @ us = xs" "?b = us @ c # ys"
    by (auto simp: append_eq_append_conv2)
  then show ?thesis
  proof cases
    case 1
    show ?thesis
    proof (cases us)
      case Nil
      with 1 one_motion [of g f] show ?thesis by simp
    next
      case (Cons u vs)
      with 1 have "c \<in> set ?a" by simp
      with no_motion_before assms(2) show ?thesis by blast
    qed
  next
    case 2
    with one_motion [of g f] show ?thesis by simp
  qed
qed

lemma prefix_motion_whole:
  assumes "prefix t (plan g f)" and "c \<in> set t" and "is_motion c"
  shows "t = plan g f"
proof -
  from assms(1) obtain r where r: "plan g f = t @ r" by (auto simp: prefix_def)
  from assms(2) obtain xs ys where t: "t = xs @ c # ys" by (auto simp: in_set_conv_decomp)
  from r t have "plan g f = xs @ c # (ys @ r)" by simp
  from plan_after_motion [OF this assms(3)] r show ?thesis by simp
qed

lemma sorted_prefix: "prefix xs ys \<Longrightarrow> sorted ys \<Longrightarrow> sorted xs"
  by (auto simp: prefix_def sorted_append)

lemma stops_motion: "is_motion c \<Longrightarrow> stops c st"
  by (simp add: stops_def kind_of_def)

subsection \<open>Where a returned status comes from\<close>

lemma next_statement_status:
  "gc_next_statement strtod buf i p = Some (go, i1, p1) \<Longrightarrow> parse_status (status p)
   \<Longrightarrow> parse_status (status p1)"
  by (auto simp: gc_next_statement_def gc_read_double_def Let_def parse_status_def
      split: bind_splits if_splits prod.splits)

lemma parse_statement_status:
  "parse_status (status (gp s)) \<Longrightarrow> parse_status (status (gp (parse_statement s)))"
  by (simp add: parse_statement_def parse_G_def parse_M_def SET_NEXT_ACTION_MOTION_def
      set_status_def Let_def parse_status_def)

lemma parse_loop_status:
  assumes "parse_loop strtod buf i s = Some s'"
  shows "parse_status (status (gp s)) \<longrightarrow> parse_status (status (gp s'))"
proof (rule parse_loop.raw_induct [OF _ assms], goal_cases)
  case (1 loop strtod buf i s s')
  note IH = 1(1) and body = 1(2)
  from body obtain go i1 p where
    ns: "gc_next_statement strtod buf i (gp s) = Some (go, i1, p)"
    by (cases "gc_next_statement strtod buf i (gp s)") auto
  let ?s1 = "s\<lparr>gp := p\<rparr>"
  show ?case
  proof
    assume "parse_status (status (gp s))"
    with ns have p: "parse_status (status (gp ?s1))"
      by (simp add: next_statement_status)
    show "parse_status (status (gp s'))"
    proof (cases "go \<and> status (gp (parse_statement ?s1)) = TG_OK")
      case True
      with body ns have "loop strtod buf i1 (parse_statement ?s1) = Some s'"
        by (simp add: Let_def)
      from IH [OF this] parse_statement_status [OF p] show ?thesis by blast
    next
      case False
      with body ns have "s' = ?s1 \<or> s' = parse_statement ?s1"
        by (auto simp: Let_def split: if_splits)
      with p parse_statement_status [OF p] show ?thesis by auto
    qed
  qed
qed

lemma final_status_cases: "final_status st t = st \<or> final_status st t \<in> snd ` set t"
proof (induction t arbitrary: st)
  case Nil
  then show ?case by simp
next
  case (Cons x t)
  obtain c r where x: "x = (c, r)" by (cases x)
  from Cons.IH [of "if kind_of c = Ignored then st else r"] show ?case
    unfolding x by (auto split: if_splits)
qed

lemma trace_status_run:
  "x \<in> set (trace cm p m) \<Longrightarrow> \<exists>c m'. snd x = fst (cm_run cm c m')"
proof (induction p arbitrary: m)
  case Nil
  then show ?case by simp
next
  case (Cons a p)
  from Cons.prems have "x = (a, fst (cm_run cm a m)) \<or> x \<in> set (trace cm p (snd (cm_run cm a m)))"
    by (auto split: if_splits)
  then show ?case
  proof
    assume "x = (a, fst (cm_run cm a m))"
    then have "snd x = fst (cm_run cm a m)" by simp
    then show ?thesis by blast
  next
    assume "x \<in> set (trace cm p (snd (cm_run cm a m)))"
    then show ?thesis by (rule Cons.IH)
  qed
qed

lemma parse_block_status:
  assumes "gc_parse_gcode_block strtod cm buf s = Some (r, s')"
  shows "parse_status r \<or> (\<exists>c m. r = fst (cm_run cm c m))"
proof -
  from assms obtain s1 where l: "parse_loop strtod buf 0 (parse_init cm s) = Some s1"
    and s1: "s' = gc_execute_gcode_block cm s1" "r = status (gp s')"
    by (auto simp: gc_parse_gcode_block_def Let_def split: bind_splits)
  have "parse_status (status (gp (parse_init cm s)))"
    by (simp add: parse_init_def parse_status_def Let_def)
  with parse_loop_status [OF l] have p: "parse_status (status (gp s1))" by blast
  let ?t = "trace cm (plan (gn s1) (gf s1)) (gm s1)"
  have r: "r = final_status (status (gp s1)) ?t"
    unfolding s1 execute_trace by (rule refl)
  from final_status_cases [of "status (gp s1)" ?t] show ?thesis
  proof
    assume "final_status (status (gp s1)) ?t = status (gp s1)"
    with r p show ?thesis by simp
  next
    assume "final_status (status (gp s1)) ?t \<in> snd ` set ?t"
    then obtain x where "x \<in> set ?t" "r = snd x" unfolding r by blast
    with trace_status_run [of x cm] show ?thesis by blast
  qed
qed

subsection \<open>Characters\<close>

lemma code_inject: "code c = code d \<longleftrightarrow> c = d"
  by (simp add: code_def)

lemma code_less: "code c < 256"
  by (simp add: code_def)

lemma code_char_of: "code (char_of (n::nat)) = n mod 256"
  by (simp add: code_def)

lemma code_toupper: "code (toupper c) = (if islower c then code c - 32 else code c)"
  by (auto simp: toupper_def code_char_of islower_def)

lemma code_values:
  "code NUL = 0" "code DEL = 127" "code (CHR ''('') = 40" "code (CHR '')'') = 41"
  "code (CHR ''/'') = 47" "code (CHR ''M'') = 77" "code (CHR ''S'') = 83" "code (CHR ''G'') = 71"
  "code (CHR ''Q'') = 81"
  by (simp_all add: code_def NUL_def DEL_def)

lemma toupper_eq_NUL [simp]: "toupper c = NUL \<longleftrightarrow> c = NUL"
  unfolding code_inject [symmetric] by (auto simp: code_toupper code_values islower_def)

lemma toupper_eq_paren [simp]: "toupper c = CHR ''('' \<longleftrightarrow> c = CHR ''(''"
  unfolding code_inject [symmetric] by (auto simp: code_toupper code_values islower_def)

lemma paren_facts [simp]:
  "toupper (CHR ''('') = CHR ''(''" "\<not> isupper (CHR ''('')" "\<not> isdigit (CHR ''('')"
  by (simp_all add: toupper_def islower_def isupper_def isdigit_def code_def)

lemma toupper_toupper [simp]: "toupper (toupper c) = toupper c"
  unfolding code_inject [symmetric] by (auto simp: code_toupper islower_def)

lemma not_islower_toupper [simp]: "\<not> islower (toupper c)"
  by (auto simp: code_toupper islower_def)

subsection \<open>The buffer\<close>

lemma drop_eq_ConsD:
  assumes "drop i xs = y # ys"
  shows "i < length xs" and "xs ! i = y" and "drop (Suc i) xs = ys"
proof -
  from assms show l: "i < length xs" by (cases "i < length xs") auto
  from assms Cons_nth_drop_Suc [OF l] show "xs ! i = y" "drop (Suc i) xs = ys" by simp_all
qed

lemma peek_drop: "drop i buf = c # r \<Longrightarrow> peek buf i = Some c"
  by (simp add: peek_def drop_eq_ConsD)

lemma incr8_small: "i < 255 \<Longrightarrow> incr8 i = Suc i"
  by (simp add: incr8_def)

lemma drop_update_before: "j \<le> i \<Longrightarrow> drop (Suc i) (xs[j := c]) = drop (Suc i) xs"
  by simp

subsection \<open>The copying loop on a short line\<close>

lemma normalize_loop_copy:
  assumes "drop i block = rest @ NUL # after" and "NUL \<notin> set rest" and "j \<le> i"
    and "i + length rest < 256"
  shows "normalize_loop schar i j block = Some (copy_loop schar i j rest block)"
  using assms
proof (induction rest arbitrary: i j block)
  case Nil
  then have "peek block i = Some NUL" by (simp add: peek_drop)
  then show ?case by (subst normalize_loop.simps) simp
next
  case (Cons c0 rest)
  from Cons.prems(1) have d: "drop i block = c0 # (rest @ NUL # after)" by simp
  then have p: "peek block i = Some c0" by (rule peek_drop)
  from d have il: "i < length block" and d1: "drop (Suc i) block = rest @ NUL # after"
    by (rule drop_eq_ConsD)+
  from Cons.prems have c0: "c0 \<noteq> NUL" and nr: "NUL \<notin> set rest" by auto
  from Cons.prems have i8: "incr8 i = Suc i" and j8: "incr8 j = Suc j"
    and jl: "j < length block" and ji: "Suc j \<le> Suc i" "j \<le> Suc i"
    and len: "Suc i + length rest < 256"
    using il by (simp_all add: incr8_small)
  have keep: "normalize_loop schar (Suc i) (Suc j) (block[j := c]) 
                = Some (copy_loop schar (Suc i) (Suc j) rest (block[j := c]))" for c
    using Cons.prems(3) d1 by (intro Cons.IH [OF _ nr ji(1) len]) simp
  have toss: "normalize_loop schar (Suc i) j block = Some (copy_loop schar (Suc i) j rest block)"
    by (rule Cons.IH [OF d1 nr ji(2) len])
  show ?case
    by (subst normalize_loop.simps)
       (simp add: p c0 i8 j8 poke_def jl keep toss Let_def)
qed

lemma kept_iff:
  "kept schar c \<longleftrightarrow>
     isupper c \<or> isdigit c
     \<or> \<not> (le_space schar c \<or> c = DEL \<or> c \<in> set invalid_punctuation)"
  by (auto simp: kept_def)

lemma command_Nil [simp]: "command schar [] = []"
  by (simp add: command_def)

lemma command_Cons:
  "command schar (c0 # rest) =
     (if c0 = CHR ''('' then []
      else if kept schar (toupper c0) then toupper c0 # command schar rest
      else command schar rest)"
  by (simp add: command_def)

lemma copy_loop_fst:
  "fst (copy_loop schar i j rest block) = j + length (command schar rest)"
  by (induction rest arbitrary: i j block) (auto simp: command_Cons kept_iff)

lemma copy_loop_comment:
  "fst (snd (copy_loop schar i j rest block))
     = (if CHR ''('' \<in> set rest
        then Some (Suc (i + length (takeWhile (\<lambda>c. c \<noteq> CHR ''('') rest))) else None)"
  by (induction rest arbitrary: i j block) auto

lemma copy_loop_length:
  "length (snd (snd (copy_loop schar i j rest block))) = length block"
  by (induction rest arbitrary: i j block) auto

lemma copy_loop_after:
  "j \<le> i \<Longrightarrow> i + length (takeWhile (\<lambda>c. c \<noteq> CHR ''('') rest) < k
   \<Longrightarrow> drop k (snd (snd (copy_loop schar i j rest block))) = drop k block"
  by (induction rest arbitrary: i j block) auto

lemma copy_loop_written:
  "j \<le> i \<Longrightarrow> i + length rest \<le> length block
   \<Longrightarrow> take (j + length (command schar rest)) (snd (snd (copy_loop schar i j rest block)))
       = take j block @ command schar rest"
proof (induction rest arbitrary: i j block)
  case Nil
  then show ?case by simp
next
  case (Cons c0 rest)
  have w: "take (Suc j + length (command schar rest))
            (snd (snd (copy_loop schar (Suc i) (Suc j) rest (block[j := toupper c0]))))
          = take j block @ toupper c0 # command schar rest"
  proof -
    from Cons.prems have "Suc j \<le> Suc i" "Suc i + length rest \<le> length (block[j := toupper c0])"
      by simp_all
    from Cons.IH [OF this]
    have "take (Suc j + length (command schar rest))
            (snd (snd (copy_loop schar (Suc i) (Suc j) rest (block[j := toupper c0]))))
          = take (Suc j) (block[j := toupper c0]) @ command schar rest" .
    moreover from Cons.prems have "take (Suc j) (block[j := toupper c0]) = take j block @ [toupper c0]"
      by (simp add: take_Suc_conv_app_nth)
    ultimately show ?thesis by simp
  qed
  have t: "take (j + length (command schar rest))
            (snd (snd (copy_loop schar (Suc i) j rest block)))
          = take j block @ command schar rest"
    using Cons.prems by (intro Cons.IH) simp_all
  show ?case using w t Cons.prems
    by (auto simp: command_Cons kept_iff)
qed

subsection \<open>The comment\<close>

lemma decr8_incr8: "i < 255 \<Longrightarrow> decr8 (incr8 i) = i"
  by (simp add: decr8_def incr8_def)

lemma strip_paren_loop_spec:
  assumes "drop (k + i) block = r @ NUL # after" and "NUL \<notin> set r" and "i + length r < 256"
  shows "strip_paren_loop k i block
           = Some (if CHR '')'' \<in> set r
                   then block[k + i + length (takeWhile (\<lambda>c. c \<noteq> CHR '')'') r) := NUL]
                   else block)"
  using assms
proof (induction r arbitrary: i)
  case Nil
  then have "peek block (k + i) = Some NUL" by (simp add: peek_drop)
  then show ?case by (subst strip_paren_loop.simps) simp
next
  case (Cons c r)
  from Cons.prems(1) have d: "drop (k + i) block = c # (r @ NUL # after)" by simp
  then have p: "peek block (k + i) = Some c" by (rule peek_drop)
  from d have il: "k + i < length block" and d1: "drop (k + Suc i) block = r @ NUL # after"
    using drop_eq_ConsD [OF d] by simp_all
  from Cons.prems have c: "c \<noteq> NUL" and nr: "NUL \<notin> set r"
    and i8: "incr8 i = Suc i" "decr8 (Suc i) = i" and len: "Suc i + length r < 256"
    by (auto simp: incr8_def decr8_def)
  note IH = Cons.IH [OF d1 nr len]
  show ?case
    by (subst strip_paren_loop.simps) (simp add: p c i8 il poke_def IH Let_def)
qed

lemma is_msg_spec:
  assumes "drop k block = com @ NUL # after" and "NUL \<notin> set com"
  shows "is_msg block k = Some (msg_prefix com)"
proof (cases com)
  case Nil
  with assms have "peek block k = Some NUL" by (simp add: peek_drop)
  then show ?thesis using Nil
    by (simp add: is_msg_def msg_prefix_def toupper_def islower_def code_def NUL_def)
next
  case c1: (Cons m1 r1)
  with assms have p1: "peek block k = Some m1" by (simp add: peek_drop)
  from assms c1 have d1: "drop (k + 1) block = r1 @ NUL # after"
    using drop_eq_ConsD(3) [of k block m1 "r1 @ NUL # after"] by simp
  show ?thesis
  proof (cases r1)
    case Nil
    with d1 have "peek block (k + 1) = Some NUL" by (simp add: peek_drop)
    then show ?thesis using Nil c1 p1
      by (simp add: is_msg_def msg_prefix_def toupper_def islower_def code_def NUL_def)
  next
    case c2: (Cons m2 r2)
    with d1 have p2: "peek block (k + 1) = Some m2" by (simp add: peek_drop)
    from d1 c2 have d2: "drop (k + 2) block = r2 @ NUL # after"
      using drop_eq_ConsD(3) [of "k + 1" block m2 "r2 @ NUL # after"] by simp
    show ?thesis
    proof (cases r2)
      case Nil
      with d2 have "peek block (k + 2) = Some NUL" by (simp add: peek_drop)
      then show ?thesis using Nil c1 c2 p1 p2
        by (simp add: is_msg_def msg_prefix_def toupper_def islower_def code_def NUL_def)
    next
      case c3: (Cons m3 r3)
      with d2 have "peek block (k + 2) = Some m3" by (simp add: peek_drop)
      then show ?thesis using c1 c2 c3 p1 p2
        by (auto simp: is_msg_def msg_prefix_def)
    qed
  qed
qed

lemma cstr_append_NUL: "NUL \<notin> set t \<Longrightarrow> cstr (t @ NUL # after) = t"
  by (induction t) (auto simp: cstr_def)

lemma cstr_at_eq:
  assumes "drop k b = t @ NUL # after" and "NUL \<notin> set t" and "n \<le> length t"
  shows "cstr_at b (k + n) = Some (drop n t)"
proof -
  have "drop (k + n) b = drop n (drop k b)" by (simp add: add.commute)
  with assms have d: "drop (k + n) b = drop n t @ NUL # after" by simp
  from assms(2) have "NUL \<notin> set (drop n t)" by (auto dest: in_set_dropD)
  with d show ?thesis by (simp add: cstr_at_def cstr_append_NUL)
qed

lemma takeWhile_update:
  assumes "length (takeWhile P xs) < length xs"
  shows "xs[length (takeWhile P xs) := y]
           = takeWhile P xs @ y # drop (Suc (length (takeWhile P xs))) xs"
proof -
  have "take (length (takeWhile P xs)) xs = takeWhile P xs"
    by (rule takeWhile_eq_take [symmetric])
  with upd_conv_take_nth_drop [OF assms, of y] show ?thesis by simp
qed

lemma toupper_close [simp]: "toupper (CHR '')'') = CHR '')''"
  by (simp add: toupper_def islower_def code_def)

lemma msg_prefix_takeWhile:
  assumes "msg_prefix com"
  shows "takeWhile (\<lambda>c. c \<noteq> CHR '')'') com
           = take 3 com @ takeWhile (\<lambda>c. c \<noteq> CHR '')'') (drop 3 com)"
proof -
  have "c \<noteq> CHR '')''" if "c \<in> set (take 3 com)" for c
  proof
    assume "c = CHR '')''"
    with that have "toupper (CHR '')'') \<in> set (map toupper (take 3 com))" by force
    with assms show False by (simp add: msg_prefix_def)
  qed
  then have "takeWhile (\<lambda>c. c \<noteq> CHR '')'') (take 3 com @ drop 3 com)
               = take 3 com @ takeWhile (\<lambda>c. c \<noteq> CHR '')'') (drop 3 com)"
    by (intro takeWhile_append2) 
  then show ?thesis by simp
qed

lemma comment_drop:
  assumes "CHR ''('' \<in> set cs"
  shows "Suc (length (takeWhile (\<lambda>c. c \<noteq> CHR ''('') cs)) \<le> length cs"
    and "drop (Suc (length (takeWhile (\<lambda>c. c \<noteq> CHR ''('') cs))) cs
           = tl (dropWhile (\<lambda>c. c \<noteq> CHR ''('') cs)"
proof -
  have "length (takeWhile (\<lambda>c. c \<noteq> CHR ''('') cs) < length cs"
  proof (rule ccontr)
    assume "\<not> length (takeWhile (\<lambda>c. c \<noteq> CHR ''('') cs) < length cs"
    then have "take (length (takeWhile (\<lambda>c. c \<noteq> CHR ''('') cs)) cs = cs" by simp
    then have "takeWhile (\<lambda>c. c \<noteq> CHR ''('') cs = cs"
      by (simp add: takeWhile_eq_take [symmetric])
    with assms show False unfolding takeWhile_eq_all_conv by blast
  qed
  then show "Suc (length (takeWhile (\<lambda>c. c \<noteq> CHR ''('') cs)) \<le> length cs" by simp
  have "drop (length (takeWhile (\<lambda>c. c \<noteq> CHR ''('') cs)) cs = dropWhile (\<lambda>c. c \<noteq> CHR ''('') cs"
    by (rule dropWhile_eq_drop [symmetric])
  moreover have "drop (Suc n) cs = tl (drop n cs)" for n
    by (simp add: drop_Suc tl_drop)
  ultimately show "drop (Suc (length (takeWhile (\<lambda>c. c \<noteq> CHR ''('') cs))) cs
           = tl (dropWhile (\<lambda>c. c \<noteq> CHR ''('') cs)"
    by (simp only:)
qed

lemma command_length: "length (command schar cs) \<le> length (takeWhile (\<lambda>c. c \<noteq> CHR ''('') cs)"
  unfolding command_def by (rule order_trans [OF length_filter_le]) simp

lemma command_no_NUL:
  assumes "NUL \<notin> set cs"
  shows "NUL \<notin> set (command schar cs)"
proof
  assume "NUL \<in> set (command schar cs)"
  then have "NUL \<in> toupper ` set (takeWhile (\<lambda>c. c \<noteq> CHR ''('') cs)"
    by (simp add: command_def)
  then obtain x where "x \<in> set (takeWhile (\<lambda>c. c \<noteq> CHR ''('') cs)" "toupper x = NUL"
    by (metis imageE)
  then have "x \<in> set cs" "x = NUL" by (auto dest: set_takeWhileD)
  with assms show False by simp
qed

subsection \<open>The normalizer on a short line\<close>

lemma normalize_deleted:
  assumes "block = cs @ NUL # after" and "block_deleted cs"
  shows "gc_normalize_gcode_block cm schar block s = Some (NUL # tl block, s)"
proof -
  from assms obtain cs' where "block = CHR ''/'' # cs' @ NUL # after"
    by (cases cs) (auto simp: block_deleted_def)
  then show ?thesis
    by (simp add: gc_normalize_gcode_block_def peek_def poke_def)
qed

lemma normalize_kept:
  assumes blk: "block = cs @ NUL # after" and nn: "NUL \<notin> set cs" and len: "length cs < 256"
    and nd: "\<not> block_deleted cs"
  shows "\<exists>b. gc_normalize_gcode_block cm schar block s = Some (b, emit cm (message_of cs) s)
           \<and> length b = length block
           \<and> take (Suc (length (command schar cs))) b = command schar cs @ [NUL]"
proof -
  let ?out = "command schar cs"
  let ?seg = "takeWhile (\<lambda>c. c \<noteq> CHR ''('') cs"
  let ?j = "length ?out"
  define b1 where "b1 = snd (snd (copy_loop schar 0 0 cs block))"
  define b2 where "b2 = b1[?j := NUL]"
  have p0: "\<exists>c. peek block 0 = Some c \<and> c \<noteq> CHR ''/''"
    using blk nd by (cases cs) (auto simp: peek_def block_deleted_def NUL_def)
  have "normalize_loop schar 0 0 block = Some (copy_loop schar 0 0 cs block)"
    using blk nn len by (intro normalize_loop_copy [where after = after]) simp_all
  then have loop: "normalize_loop schar 0 0 block
      = Some (?j, if CHR ''('' \<in> set cs then Some (Suc (length ?seg)) else None, b1)"
    using copy_loop_fst [of schar 0 0 cs block] copy_loop_comment [of schar 0 0 cs block]
    by (simp add: b1_def prod_eq_iff)
  have l1: "length b1 = length block" by (simp add: b1_def copy_loop_length)
  have js: "?j \<le> length ?seg" by (rule command_length)
  have sl: "length ?seg \<le> length cs" by (rule length_takeWhile_le)
  from js sl blk have jl: "?j < length b1" by (simp add: l1)
  then have poke: "poke b1 ?j NUL = Some b2" by (simp add: poke_def b2_def)
  have "take (0 + ?j) b1 = take 0 block @ ?out"
    unfolding b1_def using blk by (intro copy_loop_written) simp_all
  then have t1: "take ?j b1 = ?out" by simp
  have t2: "take (Suc ?j) b2 = ?out @ [NUL]"
    using jl t1 by (simp add: b2_def take_Suc_conv_app_nth)
  have l2: "length b2 = length block" by (simp add: b2_def l1)
  show ?thesis
  proof (cases "CHR ''('' \<in> set cs")
    case False
    then have "message_of cs = None" by (simp add: message_of_def comment_text_def)
    moreover from False p0 loop poke
    have "gc_normalize_gcode_block cm schar block s = Some (b2, s)"
      by (auto simp: gc_normalize_gcode_block_def)
    ultimately show ?thesis using t2 l2 by (simp add: emit_def)
  next
    case True
    let ?k = "Suc (length ?seg)"
    let ?com = "tl (dropWhile (\<lambda>c. c \<noteq> CHR ''('') cs)"
    from True have ct: "comment_text cs = Some ?com" by (simp add: comment_text_def)
    have "drop ?k b1 = drop ?k block"
      unfolding b1_def by (intro copy_loop_after) simp_all
    moreover have "drop ?k b2 = drop ?k b1"
      unfolding b2_def using js by (intro drop_update_cancel) simp
    moreover have "drop ?k block = ?com @ NUL # after"
      using comment_drop [OF True] blk by simp
    ultimately have dk: "drop ?k b2 = ?com @ NUL # after" by simp
    have nc: "NUL \<notin> set ?com"
      using nn by (metis in_set_dropD comment_drop(2) [OF True])
    have cl: "length ?com < 256"
      using len comment_drop(2) [OF True, symmetric] by simp
    have msg: "is_msg b2 ?k = Some (msg_prefix ?com)"
      using dk nc by (rule is_msg_spec)
    show ?thesis
    proof (cases "msg_prefix ?com")
      case False
      with ct nd have "message_of cs = None" by (simp add: message_of_def)
      moreover from True False p0 loop poke msg
      have "gc_normalize_gcode_block cm schar block s = Some (b2, s)"
        by (auto simp: gc_normalize_gcode_block_def)
      ultimately show ?thesis using t2 l2 by (simp add: emit_def)
    next
      case mp: True
      let ?t = "takeWhile (\<lambda>c. c \<noteq> CHR '')'') ?com"
      define b3 where "b3 = (if CHR '')'' \<in> set ?com then b2[?k + 0 + length ?t := NUL] else b2)"
      have strip: "strip_paren_loop ?k 0 b2 = Some b3"
        unfolding b3_def using dk nc cl by (intro strip_paren_loop_spec [where after = after]) simp_all
      have l3: "length b3 = length block" by (simp add: b3_def l2)
      have t3: "take (Suc ?j) b3 = ?out @ [NUL]"
        using t2 js by (simp add: b3_def take_update_cancel)
      have "\<exists>rest. drop ?k b3 = ?t @ NUL # rest"
      proof (cases "CHR '')'' \<in> set ?com")
        case False
        then have te: "?t = ?com" unfolding takeWhile_eq_all_conv by blast
        from False have "b3 = b2" by (simp only: b3_def if_False)
        with dk have "drop ?k b3 = ?t @ NUL # after" unfolding te by (simp only:)
        then show ?thesis by (rule exI)
      next
        case True
        have lt: "length ?t < length (?com @ NUL # after)"
          using length_takeWhile_le [of "\<lambda>c. c \<noteq> CHR '')''" ?com] by simp
        have tw: "takeWhile (\<lambda>c. c \<noteq> CHR '')'') (?com @ NUL # after) = ?t"
          using True by (simp add: takeWhile_append1)
        from True have "drop ?k b3 = (drop ?k b2)[length ?t := NUL]"
          by (simp add: b3_def drop_update_swap)
        also have "\<dots> = (?com @ NUL # after)[length ?t := NUL]" by (simp only: dk)
        also have "\<dots> = ?t @ NUL # drop (Suc (length ?t)) (?com @ NUL # after)"
          using takeWhile_update [of "\<lambda>c. c \<noteq> CHR '')''" "?com @ NUL # after" NUL] lt
          by (simp only: tw)
        finally show ?thesis by blast
      qed
      then obtain rest where d3: "drop ?k b3 = ?t @ NUL # rest" by blast
      have nt: "NUL \<notin> set ?t" using nc by (auto dest: set_takeWhileD)
      have t_eq: "?t = take 3 ?com @ takeWhile (\<lambda>c. c \<noteq> CHR '')'') (drop 3 ?com)"
        using mp by (rule msg_prefix_takeWhile)
      from mp have l3c: "3 \<le> length ?com" by (simp add: msg_prefix_def)
      then have "3 \<le> length ?t" by (subst t_eq) simp
      from cstr_at_eq [OF d3 nt this]
      have "cstr_at b3 (?k + 3) = Some (drop 3 ?t)" .
      also have "drop 3 ?t = takeWhile (\<lambda>c. c \<noteq> CHR '')'') (drop 3 ?com)"
        using l3c by (subst t_eq) (simp add: min_absorb2)
      finally have ca: "cstr_at b3 (?k + 3) = Some (takeWhile (\<lambda>c. c \<noteq> CHR '')'') (drop 3 ?com))" .
      from ct nd mp have m: "message_of cs = Some (takeWhile (\<lambda>c. c \<noteq> CHR '')'') (drop 3 ?com))"
        by (simp add: message_of_def)
      from True mp p0 loop poke msg strip ca
      have "gc_normalize_gcode_block cm schar block s
              = Some (b3, snd (cm_call cm (Cm_message (takeWhile (\<lambda>c. c \<noteq> CHR '')'') (drop 3 ?com))) s))"
        by (auto simp: gc_normalize_gcode_block_def)
      then show ?thesis using t3 l3 m by (simp add: emit_def)
    qed
  qed
qed

subsection \<open>The order of the calls\<close>

text \<open>
  Let \<open>cs\<close> be the calls one run of the dispatcher adds. Then \<open>cs\<close> is a beginning of
  the plan, so its steps never decrease; a motion call is the last call and its status
  is left in \<open>gp.status\<close>, which the function returns; and when there is a motion
  call, or when every call returned \<open>TG_OK\<close>, the calls are the whole plan. The lines
  \<open>F100G0X10\<close> and \<open>G0X10F100\<close> give the same block and the same calls.
\<close>

lemma dispatch_order:
  "\<exists>cs. calls (gc_execute_gcode_block cm s) = calls s @ cs
     \<and> prefix (map fst cs) (plan (gn s) (gf s))
     \<and> sorted (map step_of (map fst cs))
     \<and> (\<forall>i<length cs. is_motion (fst (cs ! i))
           \<longrightarrow> Suc i = length cs \<and> status (gp (gc_execute_gcode_block cm s)) = snd (cs ! i))
     \<and> ((\<exists>x\<in>set cs. is_motion (fst x)) \<longrightarrow> map fst cs = plan (gn s) (gf s))
     \<and> ((\<forall>x\<in>set cs. snd x = TG_OK \<and> \<not> is_motion (fst x)) \<longrightarrow> map fst cs = plan (gn s) (gf s))"
proof -
  define t where "t = trace cm (plan (gn s) (gf s)) (gm s)"
  have c: "calls (gc_execute_gcode_block cm s) = calls s @ t"
    and r: "status (gp (gc_execute_gcode_block cm s)) = final_status (status (gp s)) t"
    unfolding t_def execute_trace by (rule refl)+
  have p: "prefix (map fst t) (plan (gn s) (gf s))"
    unfolding t_def by (rule trace_prefix)
  from p plan_sorted have so: "sorted (map step_of (map fst t))"
    by (blast intro: sorted_prefix map_mono_prefix)
  have l: "\<forall>i<length t. is_motion (fst (t ! i))
      \<longrightarrow> Suc i = length t \<and> status (gp (gc_execute_gcode_block cm s)) = snd (t ! i)"
  proof (intro allI impI)
    fix i assume i: "i < length t" and "is_motion (fst (t ! i))"
    then have "stops (fst (t ! i)) (snd (t ! i))" by (simp add: stops_motion)
    from trace_stops_last [OF i [unfolded t_def] this [unfolded t_def], of "status (gp s)"]
    show "Suc i = length t \<and> status (gp (gc_execute_gcode_block cm s)) = snd (t ! i)"
      unfolding r t_def by simp
  qed
  have w: "(\<exists>x\<in>set t. is_motion (fst x)) \<longrightarrow> map fst t = plan (gn s) (gf s)"
  proof
    assume "\<exists>x\<in>set t. is_motion (fst x)"
    then obtain x where x: "x \<in> set t" "is_motion (fst x)" by blast
    from x(1) have "fst x \<in> set (map fst t)" by simp
    from prefix_motion_whole [OF p this x(2)] show "map fst t = plan (gn s) (gf s)" .
  qed
  have a: "(\<forall>x\<in>set t. snd x = TG_OK \<and> \<not> is_motion (fst x)) \<longrightarrow> map fst t = plan (gn s) (gf s)"
  proof
    assume "\<forall>x\<in>set t. snd x = TG_OK \<and> \<not> is_motion (fst x)"
    then have "\<forall>x\<in>set t. \<not> stops (fst x) (snd x)"
      by (simp add: stops_def kind_of_def)
    then show "map fst t = plan (gn s) (gf s)"
      unfolding t_def by (rule trace_complete)
  qed
  from c p so l w a show ?thesis by (intro exI [of _ t] conjI)
qed

lemma dispatch_order_example:
  "map_option gn (parse_loop strtod_decimal (line ''F100G0X10'') 0
       (parse_init (test_cm accept) (state0 gm0))) = Some (gn example_block)
   \<and> map_option gf (parse_loop strtod_decimal (line ''F100G0X10'') 0
       (parse_init (test_cm accept) (state0 gm0))) = Some (gf example_block)
   \<and> map_option gn (parse_loop strtod_decimal (line ''G0X10F100'') 0
       (parse_init (test_cm accept) (state0 gm0))) = Some (gn example_block)
   \<and> map_option gf (parse_loop strtod_decimal (line ''G0X10F100'') 0
       (parse_init (test_cm accept) (state0 gm0))) = Some (gf example_block)
   \<and> calls (gc_execute_gcode_block (test_cm accept) example_block)
       = [(Cm_set_feed_rate 100, TG_OK), (Cm_straight_traverse 10 0 0, TG_OK)]
   \<and> status (gp (gc_execute_gcode_block (test_cm accept) example_block)) = TG_OK"
proof -
  let ?L = "[(Cm_set_feed_rate 100, TG_OK), (Cm_straight_traverse 10 0 0, TG_OK)]"
  have p: "map_option gn (parse_loop strtod_decimal (line ''F100G0X10'') 0
       (parse_init (test_cm accept) (state0 gm0))) = Some (gn example_block)"
    "map_option gf (parse_loop strtod_decimal (line ''F100G0X10'') 0
       (parse_init (test_cm accept) (state0 gm0))) = Some (gf example_block)"
    "map_option gn (parse_loop strtod_decimal (line ''G0X10F100'') 0
       (parse_init (test_cm accept) (state0 gm0))) = Some (gn example_block)"
    "map_option gf (parse_loop strtod_decimal (line ''G0X10F100'') 0
       (parse_init (test_cm accept) (state0 gm0))) = Some (gf example_block)"
    by (simp_all add: block_eval example_block_def)
  have c: "calls (gc_execute_gcode_block (test_cm accept) example_block) = ?L"
    by (simp add: block_eval example_block_def)
  from dispatch_order [of "test_cm accept" example_block] obtain cs where
    cs: "calls (gc_execute_gcode_block (test_cm accept) example_block)
          = calls example_block @ cs"
    and last: "\<forall>i<length cs. is_motion (fst (cs ! i)) \<longrightarrow> Suc i = length cs
        \<and> status (gp (gc_execute_gcode_block (test_cm accept) example_block)) = snd (cs ! i)"
    by blast
  from cs c have L: "cs = ?L" by (simp add: example_block_def state0_def)
  from last [rule_format, of 1]
  have "status (gp (gc_execute_gcode_block (test_cm accept) example_block)) = TG_OK"
    unfolding L by (simp add: is_motion_def)
  with p c show ?thesis by blast
qed

subsection \<open>Spindle calls in a trace\<close>

lemma kind_of_spindle: "kind_of c = Ignored \<longleftrightarrow> is_spindle c"
  by (auto simp: kind_of_def is_spindle_def is_motion_def)

lemma spindle_not_stops: "is_spindle c \<Longrightarrow> \<not> stops c st"
  by (simp add: stops_def kind_of_spindle [symmetric])

lemma trace_continues:
  "i < length (trace cm p m) \<Longrightarrow> \<not> stops (fst (trace cm p m ! i)) (snd (trace cm p m ! i))
   \<Longrightarrow> Suc i < length p \<Longrightarrow> Suc i < length (trace cm p m)"
proof (induction p arbitrary: m i)
  case Nil
  then show ?case by simp
next
  case (Cons c cs)
  let ?r = "fst (cm_run cm c m)" and ?m = "snd (cm_run cm c m)"
  show ?case
  proof (cases i)
    case 0
    with Cons.prems have ns: "\<not> stops c ?r" by simp
    from Cons.prems 0 obtain d ds where "cs = d # ds" by (cases cs) auto
    with ns show ?thesis unfolding 0 by simp
  next
    case (Suc n)
    with Cons.prems have ns: "\<not> stops c ?r"
      by (auto split: if_splits)
    then have t: "trace cm (c # cs) m = (c, ?r) # trace cm cs ?m" by simp
    from Cons.prems Suc have n: "n < length (trace cm cs ?m)"
      and sn: "\<not> stops (fst (trace cm cs ?m ! n)) (snd (trace cm cs ?m ! n))"
      and l: "Suc n < length cs"
      unfolding t by simp_all
    from Cons.IH [OF n sn l] show ?thesis unfolding t Suc by simp
  qed
qed

lemma final_status_spindle_only:
  "\<forall>x\<in>set t. is_spindle (fst x) \<Longrightarrow> final_status st t = st"
  by (induction t arbitrary: st) (auto simp: kind_of_spindle)

lemma final_status_last:
  "i < length t \<Longrightarrow> \<not> is_spindle (fst (t ! i))
   \<Longrightarrow> \<forall>j<length t. i < j \<longrightarrow> is_spindle (fst (t ! j))
   \<Longrightarrow> final_status st t = snd (t ! i)"
proof (induction t arbitrary: st i)
  case Nil
  then show ?case by simp
next
  case (Cons x t)
  obtain c r where x: "x = (c, r)" by (cases x)
  show ?case
  proof (cases i)
    case 0
    from Cons.prems(3) have "\<forall>y\<in>set t. is_spindle (fst y)"
      unfolding 0 all_set_conv_all_nth by auto
    then have "final_status r t = r" by (rule final_status_spindle_only)
    with Cons.prems(2) show ?thesis unfolding 0 x by (simp add: kind_of_spindle)
  next
    case (Suc n)
    from Cons.prems(1,2) have n: "n < length t" "\<not> is_spindle (fst (t ! n))"
      unfolding Suc by simp_all
    have "\<forall>j<length t. n < j \<longrightarrow> is_spindle (fst (t ! j))"
    proof (intro allI impI)
      fix j assume "j < length t" "n < j"
      with Cons.prems(3) [rule_format, of "Suc j"] show "is_spindle (fst (t ! j))"
        unfolding Suc by simp
    qed
    from Cons.IH [OF n this] show ?thesis unfolding Suc x by simp
  qed
qed

subsection \<open>The characters of a normalized command\<close>

lemma char_eq_code: "c = d \<longleftrightarrow> code c = code d"
  by (simp add: code_inject)

lemma code_values_all:
  "code (CHR ''!'') = 33" "code (CHR ''$'') = 36" "code (CHR ''%'') = 37" "code (CHR '','') = 44"
  "code (CHR '';'') = 59" "code (CHR '':'') = 58" "code (CHR ''?'') = 63" "code (CHR ''@'') = 64"
  "code (CHR ''^'') = 94" "code (CHR ''_'') = 95" "code (CHR ''~'') = 126" "code (CHR 0x60) = 96"
  "code (CHR 0x27) = 39" "code (CHR 0x22) = 34"
  "code (CHR ''+'') = 43" "code (CHR ''-'') = 45" "code (CHR ''.'') = 46" "code (CHR ''/'') = 47"
  "code (CHR ''*'') = 42" "code (CHR ''<'') = 60" "code (CHR ''='') = 61" "code (CHR ''>'') = 62"
  "code (CHR ''|'') = 124" "code (CHR ''#'') = 35" "code (CHR '')'') = 41" "code (CHR ''['') = 91"
  "code (CHR '']'') = 93" "code (CHR ''{'') = 123" "code (CHR ''}'') = 125" "code (CHR ''&'') = 38"
  "code (CHR 0x5C) = 92"
  by (simp_all add: code_def)

lemma invalid_codes:
  "c \<in> set invalid_punctuation \<longleftrightarrow>
     code c \<in> {33, 36, 37, 44, 59, 58, 63, 64, 94, 95, 126, 96, 39, 34}"
  by (simp add: invalid_punctuation_def char_eq_code [of c] code_values_all)

lemma passed_codes:
  "c \<in> set passed_punctuation \<longleftrightarrow>
     code c \<in> {43, 45, 46, 47, 42, 60, 61, 62, 124, 35, 41, 91, 93, 123, 125, 38, 92}"
  by (simp add: passed_punctuation_def char_eq_code [of c] code_values_all)

lemma kept_passed:
  assumes "kept schar c" and "\<not> islower c" and "c \<noteq> CHR ''(''"
  shows "passed_char schar c"
proof -
  have p: "code c \<noteq> 40" using assms(3) unfolding char_eq_code [of c] by (simp add: code_values)
  have d: "code DEL = 127" by (rule code_values)
  from assms(1,2) p code_less [of c] show ?thesis
    unfolding kept_def passed_char_def passed_codes invalid_codes le_space_def isupper_def
      isdigit_def islower_def char_eq_code [of c DEL] d
    by (cases schar) (simp_all, arith+)
qed

lemma command_passed: "c \<in> set (command schar cs) \<Longrightarrow> passed_char schar c"
proof -
  assume "c \<in> set (command schar cs)"
  then obtain c0 where c0: "c0 \<in> set (takeWhile (\<lambda>c. c \<noteq> CHR ''('') cs)"
    and c: "c = toupper c0" and k: "kept schar c"
    by (auto simp: command_def)
  from c0 have "c0 \<noteq> CHR ''(''" by (auto dest: set_takeWhileD)
  then have "c \<noteq> CHR ''(''" by (simp add: c)
  with k c show ?thesis by (intro kept_passed) simp_all
qed

lemma command_no_paren: "CHR ''('' \<notin> set (command schar cs)"
proof
  assume "CHR ''('' \<in> set (command schar cs)"
  then have "CHR ''('' \<in> toupper ` set (takeWhile (\<lambda>c. c \<noteq> CHR ''('') cs)"
    by (simp add: command_def)
  then obtain c0 where "c0 \<in> set (takeWhile (\<lambda>c. c \<noteq> CHR ''('') cs)" "toupper c0 = CHR ''(''"
    by (metis imageE)
  then show False by (auto dest: set_takeWhileD)
qed

lemma command_idem: "command schar (command schar cs) = command schar cs"
proof -
  let ?out = "command schar cs"
  have a: "takeWhile (\<lambda>c. c \<noteq> CHR ''('') ?out = ?out"
    unfolding takeWhile_eq_all_conv using command_no_paren [of schar cs] by blast
  have b: "map toupper ?out = ?out"
    by (simp add: command_def filter_map comp_def map_idI)
  have c: "filter (kept schar) ?out = ?out"
    by (simp add: command_def)
  show ?thesis unfolding command_def [of schar ?out] a b c by (rule refl)
qed

lemma normalize_spec:
  assumes blk: "block = cs @ NUL # after" and nn: "NUL \<notin> set cs" and len: "length cs < 256"
  shows "\<exists>b rest. gc_normalize_gcode_block cm schar block s = Some (b, emit cm (message_of cs) s)
           \<and> b = normalized schar cs @ NUL # rest"
proof (cases "block_deleted cs")
  case True
  from normalize_deleted [OF blk True]
  have "gc_normalize_gcode_block cm schar block s = Some (NUL # tl block, s)" .
  moreover from True have "message_of cs = None" "normalized schar cs = []"
    by (simp_all add: message_of_def normalized_def)
  ultimately show ?thesis by (simp add: emit_def)
next
  case False
  from normalize_kept [OF blk nn len False] obtain b where
    b: "gc_normalize_gcode_block cm schar block s = Some (b, emit cm (message_of cs) s)"
    and t: "take (Suc (length (command schar cs))) b = command schar cs @ [NUL]"
    by blast
  have "b = take (Suc (length (command schar cs))) b @ drop (Suc (length (command schar cs))) b"
    by simp
  then have "b = normalized schar cs @ NUL # drop (Suc (length (command schar cs))) b"
    using False by (simp add: t normalized_def)
  with b show ?thesis by blast
qed

lemma normalized_no_NUL: "NUL \<notin> set cs \<Longrightarrow> NUL \<notin> set (normalized schar cs)"
  by (simp add: normalized_def command_no_NUL)

lemma normalized_length: "length (normalized schar cs) \<le> length cs"
  using command_length [of schar cs] length_takeWhile_le [of "\<lambda>c. c \<noteq> CHR ''(''" cs]
  by (simp add: normalized_def)

lemma line_block: "line cs = cs @ NUL # []"
  by (simp add: line_def)

lemma message_of_command: "message_of (normalized schar cs) = None"
proof -
  have "CHR ''('' \<notin> set (normalized schar cs)"
    using command_no_paren [of schar cs] by (simp add: normalized_def)
  then show ?thesis by (simp add: message_of_def comment_text_def)
qed

lemma normalized_idem:
  "\<not> block_deleted (normalized schar cs)
   \<Longrightarrow> normalized schar (normalized schar cs) = normalized schar cs"
  by (simp add: normalized_def command_idem)

subsection \<open>A line with a comment\<close>

lemma comment_text_split:
  "CHR ''('' \<notin> set pre \<Longrightarrow> comment_text (pre @ CHR ''('' # com) = Some com"
proof -
  assume "CHR ''('' \<notin> set pre"
  then have "dropWhile (\<lambda>c. c \<noteq> CHR ''('') (pre @ CHR ''('' # com) = CHR ''('' # com"
    by (induction pre) auto
  then show ?thesis by (simp add: comment_text_def)
qed

lemma command_split:
  "CHR ''('' \<notin> set pre \<Longrightarrow> command schar (pre @ CHR ''('' # com) = command schar pre"
proof -
  assume "CHR ''('' \<notin> set pre"
  then have a: "takeWhile (\<lambda>c. c \<noteq> CHR ''('') (pre @ CHR ''('' # com) = pre"
    and b: "takeWhile (\<lambda>c. c \<noteq> CHR ''('') pre = pre"
    by (induction pre) auto
  show ?thesis unfolding command_def a b by (rule refl)
qed

lemma block_deleted_split: "block_deleted (pre @ CHR ''('' # com) = block_deleted pre"
  by (cases pre) (simp_all add: block_deleted_def)

subsection \<open>One call of the tokenizer\<close>





subsection \<open>Repeated calls\<close>


section \<open>The claims\<close>

subsection \<open>C1: a parse error and the dispatcher\<close>

text \<open>
  C1 says that after a parse error nothing is dispatched to the canonical machine and
  the error is returned. \<open>_gc_parse_gcode_block\<close> leaves its loop at the error and
  then calls \<open>_gc_execute_gcode_block\<close> all the same: on the line \<open>F100G500\<close> the
  feed rate read before the unsupported \<open>G500\<close> is sent to the canonical machine, and
  the status of that call replaces the error, so the entry point returns \<open>TG_OK\<close>.
\<close>

theorem parse_error_still_dispatches:
  "outcome (gc_gcode_parser strtod_decimal (test_cm accept) False (line ''F100G500'') (state0 gm0))
     = Some (TG_OK, ''F100G500'', [(Cm_set_feed_rate 100, TG_OK)])"
  by (simp add: line_eval)

subsection \<open>C2: the tool change\<close>

text \<open>
  C2 says that the tool change of step 5 is called exactly when the block has an M6.
  The dispatcher tests the flag of the tool word for it: the line \<open>T1\<close> changes the
  tool, and the line \<open>M6\<close> makes no call at all.
\<close>

theorem tool_change_on_tool_flag:
  "outcome (gc_gcode_parser strtod_decimal (test_cm accept) False (line ''T1'') (state0 gm0))
     = Some (TG_OK, ''T1'', [(Cm_select_tool 1, TG_OK), (Cm_change_tool 1, TG_OK)])
   \<and> outcome (gc_gcode_parser strtod_decimal (test_cm accept) False (line ''M6'') (state0 gm0))
     = Some (TG_OK, ''M6'', [])"
  by (simp add: line_eval)

subsection \<open>C7: a call that fails\<close>

text \<open>
  C7 says that a status other than \<open>TG_OK\<close> from any call of the dispatch, the three
  spindle calls included, ends the dispatch and is returned. The dispatcher does not
  read what the spindle calls return: with a canonical machine whose spindle calls
  fail, each of the lines \<open>M3G0X10\<close>, \<open>M4G0X10\<close> and \<open>M5G0X10\<close> still makes the
  traverse and the entry point returns \<open>TG_OK\<close>, and so does the line \<open>M4\<close>, where the
  failing spindle call is the only call.
\<close>

theorem spindle_status_dropped:
  "outcome (gc_gcode_parser strtod_decimal (test_cm spindle_fails) False (line ''M3G0X10'')
      (state0 gm0))
     = Some (TG_OK, ''M3G0X10'',
         [(Cm_start_spindle_clockwise, TG_ERROR 1), (Cm_straight_traverse 10 0 0, TG_OK)])
   \<and> outcome (gc_gcode_parser strtod_decimal (test_cm spindle_fails) False (line ''M4G0X10'')
      (state0 gm0))
     = Some (TG_OK, ''M4G0X10'',
         [(Cm_start_spindle_counterclockwise, TG_ERROR 1), (Cm_straight_traverse 10 0 0, TG_OK)])
   \<and> outcome (gc_gcode_parser strtod_decimal (test_cm spindle_fails) False (line ''M5G0X10'')
      (state0 gm0))
     = Some (TG_OK, ''M5G0X10'',
         [(Cm_stop_spindle_turning, TG_ERROR 1), (Cm_straight_traverse 10 0 0, TG_OK)])
   \<and> outcome (gc_gcode_parser strtod_decimal (test_cm spindle_fails) False (line ''M4'')
      (state0 gm0))
     = Some (TG_OK, ''M4'', [(Cm_start_spindle_counterclockwise, TG_ERROR 1)])"
  by (simp add: line_eval)

text \<open>
  C7 as amended: let \<open>cs\<close> be the calls that parsing and executing one block adds,
  each with its status; they are a beginning of the plan of the block.
  A call other than a spindle call that returns a status other than \<open>TG_OK\<close> is the
  last call of the block, and its status is what \<open>_gc_parse_gcode_block\<close> returns.
  A spindle call never ends the dispatch: when the plan has a call after it, that call
  is made, whatever the spindle call returned. The status of a spindle call is never
  returned: the status returned is that of the last call that is not a spindle call,
  and the status the statement loop left when only spindle calls were made.
  Nothing is rolled back: the canonical machine is left in the state that all the calls
  of \<open>cs\<close>, run one after the other, lead to, and every status in \<open>cs\<close> is the one
  the machine returned in the state it had then.
\<close>

theorem dispatch_stops_at_failure:
  assumes "gc_parse_gcode_block strtod cm buf s = Some (r, s')"
  shows "\<exists>s1 cs. parse_loop strtod buf 0 (parse_init cm s) = Some s1
           \<and> calls s' = calls s @ cs
           \<and> prefix (map fst cs) (plan (gn s1) (gf s1))
           \<and> gm s' = replay cm (map fst cs) (gm s)
           \<and> (\<forall>i<length cs. snd (cs ! i)
                  = fst (cm_run cm (fst (cs ! i)) (replay cm (map fst (take i cs)) (gm s))))
           \<and> (\<forall>i<length cs. snd (cs ! i) \<noteq> TG_OK \<and> \<not> is_spindle (fst (cs ! i))
                  \<longrightarrow> Suc i = length cs \<and> r = snd (cs ! i))
           \<and> (\<forall>i<length cs. is_spindle (fst (cs ! i)) \<and> Suc i < length (plan (gn s1) (gf s1))
                  \<longrightarrow> Suc i < length cs)
           \<and> (\<forall>i<length cs.
                  \<not> is_spindle (fst (cs ! i))
                  \<and> (\<forall>j<length cs. i < j \<longrightarrow> is_spindle (fst (cs ! j)))
                  \<longrightarrow> r = snd (cs ! i))
           \<and> ((\<forall>x\<in>set cs. is_spindle (fst x)) \<longrightarrow> r = status (gp s1))"
proof -
  from assms obtain s1 where pl: "parse_loop strtod buf 0 (parse_init cm s) = Some s1"
    and s1: "s' = gc_execute_gcode_block cm s1" "r = status (gp s')"
    "calls s1 = calls s" "gm s1 = gm s"
    by (rule parse_block_calls)
  define t where "t = trace cm (plan (gn s1) (gf s1)) (gm s)"
  have c: "calls s' = calls s @ t" and g: "gm s' = replay cm (map fst t) (gm s)"
    and r: "r = final_status (status (gp s1)) t"
    unfolding t_def s1(1,2) execute_trace s1(3,4) by (rule refl)+
  have p: "prefix (map fst t) (plan (gn s1) (gf s1))"
    unfolding t_def by (rule trace_prefix)
  have st: "\<forall>i<length t. snd (t ! i)
      = fst (cm_run cm (fst (t ! i)) (replay cm (map fst (take i t)) (gm s)))"
    unfolding t_def by (intro allI impI trace_status)
  have l: "\<forall>i<length t. snd (t ! i) \<noteq> TG_OK \<and> \<not> is_spindle (fst (t ! i))
      \<longrightarrow> Suc i = length t \<and> r = snd (t ! i)"
  proof (intro allI impI)
    fix i assume i: "i < length t"
      and f: "snd (t ! i) \<noteq> TG_OK \<and> \<not> is_spindle (fst (t ! i))"
    then have "stops (fst (t ! i)) (snd (t ! i))" by (simp add: stops_unless_spindle)
    from trace_stops_last [OF i [unfolded t_def] this [unfolded t_def], of "status (gp s1)"]
    show "Suc i = length t \<and> r = snd (t ! i)" unfolding r t_def by simp
  qed
  have k: "\<forall>i<length t. is_spindle (fst (t ! i)) \<and> Suc i < length (plan (gn s1) (gf s1))
      \<longrightarrow> Suc i < length t"
  proof (intro allI impI)
    fix i assume i: "i < length t"
      and f: "is_spindle (fst (t ! i)) \<and> Suc i < length (plan (gn s1) (gf s1))"
    then have ns: "\<not> stops (fst (t ! i)) (snd (t ! i))" by (simp add: spindle_not_stops)
    from f have n: "Suc i < length (plan (gn s1) (gf s1))" by simp
    from trace_continues [OF i [unfolded t_def] ns [unfolded t_def] n]
    show "Suc i < length t" unfolding t_def .
  qed
  have f1: "\<forall>i<length t. \<not> is_spindle (fst (t ! i))
                  \<and> (\<forall>j<length t. i < j \<longrightarrow> is_spindle (fst (t ! j)))
                  \<longrightarrow> r = snd (t ! i)"
    unfolding r using final_status_last by blast
  have f2: "(\<forall>x\<in>set t. is_spindle (fst x)) \<longrightarrow> r = status (gp s1)"
    unfolding r using final_status_spindle_only by blast
  from pl c p g st l k f1 f2 show ?thesis by (intro exI [of _ s1] exI [of _ t] conjI)
qed

theorem dispatch_stops_at_failure_witness:
  "\<exists>r s'. gc_parse_gcode_block strtod_decimal (test_cm spindle_and_plane_fail)
              (line ''F100M4G17G0X10'') (state0 gm0) = Some (r, s')
     \<and> calls s' = [(Cm_set_feed_rate 100, TG_OK), (Cm_start_spindle_counterclockwise, TG_ERROR 2),
                    (Cm_select_plane CANON_PLANE_XY, TG_ERROR 1)]
     \<and> r = TG_ERROR 1
     \<and> t_done (gm s') = [Cm_set_feed_rate 100]"
proof -
  let ?L = "[(Cm_set_feed_rate 100, TG_OK), (Cm_start_spindle_counterclockwise, TG_ERROR 2),
             (Cm_select_plane CANON_PLANE_XY, TG_ERROR 1)]"
  have "\<exists>r s'. gc_parse_gcode_block strtod_decimal (test_cm spindle_and_plane_fail)
              (line ''F100M4G17G0X10'') (state0 gm0) = Some (r, s') \<and> calls s' = ?L"
    by (simp add: block_eval spindle_and_plane_fail_def)
  then obtain r s' where p: "gc_parse_gcode_block strtod_decimal (test_cm spindle_and_plane_fail)
              (line ''F100M4G17G0X10'') (state0 gm0) = Some (r, s')" and c: "calls s' = ?L"
    by blast
  from dispatch_stops_at_failure [OF p] obtain s1 cs where
    cs: "calls s' = calls (state0 gm0) @ cs"
    and g: "gm s' = replay (test_cm spindle_and_plane_fail) (map fst cs) (gm (state0 gm0))"
    and stop: "\<forall>i<length cs. snd (cs ! i) \<noteq> TG_OK \<and> \<not> is_spindle (fst (cs ! i))
                  \<longrightarrow> Suc i = length cs \<and> r = snd (cs ! i)"
    by blast
  from cs c have L: "cs = ?L" by (simp add: state0_def)
  from stop [rule_format, of 2] have "r = TG_ERROR 1"
    unfolding L by (simp add: is_spindle_def)
  moreover from g have "t_done (gm s') = [Cm_set_feed_rate 100]"
    unfolding L by (simp add: test_cm_def spindle_and_plane_fail_def state0_def gm0_def)
  ultimately show ?thesis using p c by blast
qed

subsection \<open>C8: the order of the calls\<close>

text \<open>
  C8 says that the calls follow the order of the steps 1 to 13, that every flagged
  step before the motion is run before the motion call, and that the motion call is
  the last. The order and the last place of the motion call hold (\<open>dispatch_order\<close>
  above). The tool change of step 5, flagged by M6, is not run: the dispatcher tests
  the flag of the tool word for it, the defect of C2. The line \<open>M6G0X10\<close> sets the
  change-tool flag and makes the traverse as its only call; \<open>M6G1X5\<close> makes the
  straight feed as its only call.
\<close>

theorem tool_change_skipped_before_motion:
  "map_option gf (parse_loop strtod_decimal (line ''M6G0X10'') 0
       (parse_init (test_cm accept) (state0 gm0)))
     = Some (zero_flags\<lparr>f_next_action := True, f_motion_mode := True,
                          f_target := [True, False, False], f_change_tool := True\<rparr>)
   \<and> outcome (gc_gcode_parser strtod_decimal (test_cm accept) False (line ''M6G0X10'')
        (state0 gm0))
     = Some (TG_OK, ''M6G0X10'', [(Cm_straight_traverse 10 0 0, TG_OK)])
   \<and> outcome (gc_gcode_parser strtod_decimal (test_cm accept) False (line ''M6G1X5'')
        (state0 gm0))
     = Some (TG_OK, ''M6G1X5'', [(Cm_straight_feed 5 0 0, TG_OK)])"
  by (simp add: line_eval)

subsection \<open>C10: G92 and the origin offsets\<close>

text \<open>
  C10: a G92 statement only sets the origin-offset mode and its flag, it does not
  touch the next action; and for a block parsed while the next action of the canonical
  machine is not \<open>NEXT_ACTION_OFFSET_COORDINATES\<close>, no call of
  \<open>cm_set_origin_offsets\<close> is made, whatever the block holds.
\<close>

theorem g92_never_sets_origin_offsets:
  assumes "cm_get_next_action cm (gm s) \<noteq> NEXT_ACTION_OFFSET_COORDINATES"
    and "gc_parse_gcode_block strtod cm buf s = Some (r, s')"
  shows "parse_G 92 s0
           = s0\<lparr>gn := (gn s0)\<lparr>set_origin_mode := True\<rparr>,
                gf := (gf s0)\<lparr>f_set_origin_mode := True\<rparr>\<rparr>
         \<and> (\<exists>cs. calls s' = calls s @ cs \<and> (\<forall>x\<in>set cs. \<not> is_set_origin_offsets (fst x)))"
proof
  show "parse_G 92 s0
           = s0\<lparr>gn := (gn s0)\<lparr>set_origin_mode := True\<rparr>,
                gf := (gf s0)\<lparr>f_set_origin_mode := True\<rparr>\<rparr>"
    by (simp add: parse_G_def)
next
  from assms(2) obtain s1 where "parse_loop strtod buf 0 (parse_init cm s) = Some s1"
    and s1: "s' = gc_execute_gcode_block cm s1" "r = status (gp s')"
    "calls s1 = calls s" "gm s1 = gm s"
    and na: "next_action (gn s1) = NEXT_ACTION_OFFSET_COORDINATES
         \<longrightarrow> cm_get_next_action cm (gm s) = NEXT_ACTION_OFFSET_COORDINATES"
    by (rule parse_block_calls)
  define t where "t = trace cm (plan (gn s1) (gf s1)) (gm s)"
  have c: "calls s' = calls s @ t"
    unfolding t_def s1(1) execute_trace s1(3,4) by (rule refl)
  have "\<forall>x\<in>set t. \<not> is_set_origin_offsets (fst x)"
  proof
    fix x assume "x \<in> set t"
    then have "fst x \<in> set (map fst t)" by simp
    moreover have "set (map fst t) \<subseteq> set (plan (gn s1) (gf s1))"
      unfolding t_def by (rule set_mono_prefix [OF trace_prefix])
    ultimately have "fst x \<in> set (plan (gn s1) (gf s1))" by blast
    with plan_origin_offsets na assms(1) show "\<not> is_set_origin_offsets (fst x)" by blast
  qed
  with c show "\<exists>cs. calls s' = calls s @ cs \<and> (\<forall>x\<in>set cs. \<not> is_set_origin_offsets (fst x))"
    by blast
qed

theorem g92_never_sets_origin_offsets_witness:
  "cm_get_next_action (test_cm accept) (gm (state0 gm0)) \<noteq> NEXT_ACTION_OFFSET_COORDINATES
   \<and> (\<exists>r s'. gc_parse_gcode_block strtod_decimal (test_cm accept) (line ''G92X5F100'')
                (state0 gm0) = Some (r, s')
         \<and> f_set_origin_mode (gf s') \<and> map fst (calls s') = [Cm_set_feed_rate 100]
         \<and> filter is_set_origin_offsets (map fst (calls s')) = [])"
proof -
  have h: "cm_get_next_action (test_cm accept) (gm (state0 gm0)) \<noteq> NEXT_ACTION_OFFSET_COORDINATES"
    by (simp add: test_eval)
  have "\<exists>r s'. gc_parse_gcode_block strtod_decimal (test_cm accept) (line ''G92X5F100'')
                (state0 gm0) = Some (r, s')
         \<and> f_set_origin_mode (gf s') \<and> map fst (calls s') = [Cm_set_feed_rate 100]"
    by (simp add: block_eval)
  then obtain r s' where p: "gc_parse_gcode_block strtod_decimal (test_cm accept)
      (line ''G92X5F100'') (state0 gm0) = Some (r, s')"
    and f: "f_set_origin_mode (gf s')" "map fst (calls s') = [Cm_set_feed_rate 100]"
    by (elim exE conjE)
  from g92_never_sets_origin_offsets [OF h p] obtain cs where
    "calls s' = calls (state0 gm0) @ cs" "\<forall>x\<in>set cs. \<not> is_set_origin_offsets (fst x)"
    by blast
  then have "filter is_set_origin_offsets (map fst (calls s')) = []"
    by (simp add: state0_def filter_empty_conv)
  with h p f show ?thesis by auto
qed

subsection \<open>C3: the quit sentinel\<close>

text \<open>
  C3 says that the entry point quits only when the normalized command is the single
  letter \<open>Q\<close>, and that \<open>Q10\<close> is parsed as a block. The entry point tests the first
  character only (note 1 of the C file says so): \<open>Q10\<close> returns \<open>TG_QUIT\<close> and
  nothing is parsed, the state is the one before the call.
\<close>

theorem quit_on_Q10:
  "gc_gcode_parser strtod_decimal (test_cm accept) False (line ''Q10'') (state0 gm0)
     = Some (TG_QUIT, line ''Q10'', state0 gm0)"
  by (simp add: line_eval)

text \<open>
  C3 as amended: when the normalized command begins with \<open>Q\<close>, the entry point returns
  \<open>TG_QUIT\<close> and leaves the state as the normalizer left it. When the normalized
  command is not empty and does not begin with \<open>Q\<close>, it is parsed as a block and the
  status returned is the one \<open>_gc_parse_gcode_block\<close> returns. When it does not begin
  with \<open>Q\<close> and no call of the canonical machine returns \<open>TG_QUIT\<close>, the entry point
  does not return \<open>TG_QUIT\<close>.
\<close>

theorem quit_on_leading_Q:
  assumes "gc_normalize_gcode_block cm schar block s = Some (b, s1)" and "peek b 0 = Some c"
  shows "(c = CHR ''Q'' \<longrightarrow> gc_gcode_parser strtod cm schar block s = Some (TG_QUIT, b, s1))
       \<and> (c \<noteq> CHR ''Q'' \<and> c \<noteq> NUL \<longrightarrow>
            map_option fst (gc_gcode_parser strtod cm schar block s)
              = map_option fst (gc_parse_gcode_block strtod cm b s1))
       \<and> (c \<noteq> CHR ''Q'' \<and> (\<forall>d m. fst (cm_run cm d m) \<noteq> TG_QUIT) \<longrightarrow>
            map_option fst (gc_gcode_parser strtod cm schar block s) \<noteq> Some TG_QUIT)"
proof (intro conjI impI)
  assume "c = CHR ''Q''"
  with assms show "gc_gcode_parser strtod cm schar block s = Some (TG_QUIT, b, s1)"
    by (simp add: gc_gcode_parser_def NUL_def)
next
  assume "c \<noteq> CHR ''Q'' \<and> c \<noteq> NUL"
  with assms show "map_option fst (gc_gcode_parser strtod cm schar block s)
              = map_option fst (gc_parse_gcode_block strtod cm b s1)"
    by (cases "gc_parse_gcode_block strtod cm b s1")
       (auto simp: gc_gcode_parser_def Let_def gc_parse_gcode_block_def split: bind_splits)
next
  assume a: "c \<noteq> CHR ''Q'' \<and> (\<forall>d m. fst (cm_run cm d m) \<noteq> TG_QUIT)"
  show "map_option fst (gc_gcode_parser strtod cm schar block s) \<noteq> Some TG_QUIT"
  proof (cases "c = NUL")
    case True
    with assms show ?thesis by (simp add: gc_gcode_parser_def)
  next
    case False
    show ?thesis
    proof (cases "gc_parse_gcode_block strtod cm b s1")
      case None
      with assms a False show ?thesis by (simp add: gc_gcode_parser_def)
    next
      case (Some x)
      obtain r s2 where x: "x = (r, s2)" by (cases x)
      have "r \<noteq> TG_QUIT"
      proof
        assume q: "r = TG_QUIT"
        then have "\<not> parse_status r" by (simp add: parse_status_def)
        with parse_block_status [OF Some [unfolded x]] obtain d m
          where "r = fst (cm_run cm d m)" by blast
        with a q show False by simp
      qed
      moreover from Some x have "r = status (gp s2)"
        by (auto simp: gc_parse_gcode_block_def Let_def split: bind_splits)
      ultimately show ?thesis using assms a False Some x
        by (simp add: gc_gcode_parser_def Let_def)
    qed
  qed
qed

theorem quit_on_leading_Q_witness:
  "gc_normalize_gcode_block (test_cm accept) False (line ''q1'') (state0 gm0)
     = Some (line ''Q1'', state0 gm0)
   \<and> peek (line ''Q1'') 0 = Some (CHR ''Q'')
   \<and> gc_gcode_parser strtod_decimal (test_cm accept) False (line ''q1'') (state0 gm0)
       = Some (TG_QUIT, line ''Q1'', state0 gm0)
   \<and> gc_normalize_gcode_block (test_cm accept) False (line ''G0X10'') (state0 gm0)
       = Some (line ''G0X10'', state0 gm0)
   \<and> peek (line ''G0X10'') 0 = Some (CHR ''G'')
   \<and> map_option fst (gc_parse_gcode_block strtod_decimal (test_cm accept) (line ''G0X10'')
         (state0 gm0)) = Some TG_OK
   \<and> map_option fst (gc_gcode_parser strtod_decimal (test_cm accept) False (line ''G0X10'')
         (state0 gm0)) = Some TG_OK"
proof -
  have n1: "gc_normalize_gcode_block (test_cm accept) False (line ''q1'') (state0 gm0)
     = Some (line ''Q1'', state0 gm0)"
    and p1: "peek (line ''Q1'') 0 = Some (CHR ''Q'')"
    and n2: "gc_normalize_gcode_block (test_cm accept) False (line ''G0X10'') (state0 gm0)
       = Some (line ''G0X10'', state0 gm0)"
    and p2: "peek (line ''G0X10'') 0 = Some (CHR ''G'')"
    by (simp_all add: char_eval norm_eval)
  have b: "map_option fst (gc_parse_gcode_block strtod_decimal (test_cm accept) (line ''G0X10'')
         (state0 gm0)) = Some TG_OK"
    by (simp add: block_eval)
  from quit_on_leading_Q [OF n1 p1, of strtod_decimal]
  have q: "gc_gcode_parser strtod_decimal (test_cm accept) False (line ''q1'') (state0 gm0)
       = Some (TG_QUIT, line ''Q1'', state0 gm0)"
    by simp
  from quit_on_leading_Q [OF n2 p2, of strtod_decimal] b
  have "map_option fst (gc_gcode_parser strtod_decimal (test_cm accept) False (line ''G0X10'')
         (state0 gm0)) = Some TG_OK"
    by (simp add: NUL_def)
  with n1 p1 n2 p2 b q show ?thesis by simp
qed

subsection \<open>C6: the characters of a normalized command\<close>

text \<open>
  C6 says that a normalized command holds only upper-case letters, digits and the
  punctuation \<open>+ - . / * < = > | % # ( ) [ ] { }\<close>. The copying loop discards a list
  of characters and copies every other one: the ampersand (and the backslash) is not
  in that list, so \<open>G1&\<close> stays \<open>G1&\<close>, whether \<open>char\<close> is signed or not.
\<close>

theorem ampersand_passes:
  "gc_normalize_gcode_block (test_cm accept) False (line ''G1&'') (state0 gm0)
     = Some (line ''G1&'', state0 gm0)
   \<and> gc_normalize_gcode_block (test_cm accept) True (line ''G1&'') (state0 gm0)
     = Some (line ''G1&'', state0 gm0)
   \<and> cstr (line ''G1&'') = ''G1&''
   \<and> claimed_char (CHR ''&'') = False"
  by (simp add: char_eval norm_eval claimed_char_def)

text \<open>
  C6 as amended: for every line of at most 255 characters (the indices of the
  normalizer are \<open>uint8_t\<close>), the normalizer returns, and the command it leaves is the
  one of section 4.1 (\<open>normalized\<close>); every character of it is an upper-case letter, a
  digit, one of \<open>+ - . / * < = > | # ) [ ] { } &\<close> and the backslash, or, when \<open>char\<close> is unsigned, a
  byte from 0x80 on.
\<close>

theorem normalized_characters:
  assumes "block = cs @ NUL # after" and "NUL \<notin> set cs" and "length cs < 256"
  shows "\<exists>b s'. gc_normalize_gcode_block cm schar block s = Some (b, s')
           \<and> cstr b = normalized schar cs
           \<and> (\<forall>c\<in>set (cstr b). passed_char schar c)"
proof -
  from normalize_spec [OF assms] obtain b rest where
    b: "gc_normalize_gcode_block cm schar block s = Some (b, emit cm (message_of cs) s)"
    and e: "b = normalized schar cs @ NUL # rest"
    by blast
  from e assms(2) have c: "cstr b = normalized schar cs"
    by (simp add: cstr_append_NUL normalized_no_NUL)
  have "\<forall>c\<in>set (normalized schar cs). passed_char schar c"
    by (simp add: normalized_def command_passed)
  with b c show ?thesis by simp
qed


theorem normalized_characters_witness:
  "\<exists>b s'. gc_normalize_gcode_block (test_cm accept) False (line ''g1 x-1.5 (c)'') (state0 gm0)
             = Some (b, s')
     \<and> cstr b = ''G1X-1.5''"
proof -
  have n: "NUL \<notin> set ''g1 x-1.5 (c)''" and l: "length ''g1 x-1.5 (c)'' < 256"
    by (simp_all add: NUL_def)
  have e: "normalized False ''g1 x-1.5 (c)'' = ''G1X-1.5''"
    by (simp add: normalized_def block_deleted_def command_def kept_def char_eval)
  from normalized_characters [OF line_block n l, of "test_cm accept" False "state0 gm0"]
  show ?thesis unfolding e by blast
qed

subsection \<open>C5: normalizing twice\<close>

text \<open>
  C5 says that normalizing a normalized command gives the same command. A slash is
  the block-delete character only when it is the first character of the buffer: the
  line \<open> /G1\<close> (a space, then a slash) is normalized to \<open>/G1\<close>, and normalizing that
  buffer again deletes the block and leaves the empty command.
\<close>

theorem renormalize_slash:
  "gc_normalize_gcode_block (test_cm accept) False (line '' /G1'') (state0 gm0)
     = Some (''/G1'' @ [NUL, NUL], state0 gm0)
   \<and> cstr (''/G1'' @ [NUL, NUL]) = ''/G1''
   \<and> gc_normalize_gcode_block (test_cm accept) False (''/G1'' @ [NUL, NUL]) (state0 gm0)
     = Some (NUL # ''G1'' @ [NUL, NUL], state0 gm0)
   \<and> cstr (NUL # ''G1'' @ [NUL, NUL]) = []"
  by (simp add: char_eval norm_eval)

text \<open>
  C5 as amended: for a line of at most 255 characters, when the command the normalizer
  leaves does not begin with a slash, running the normalizer again on the buffer
  leaves the same command, emits no message and changes nothing else.
\<close>

theorem renormalize_same:
  assumes "block = cs @ NUL # after" and "NUL \<notin> set cs" and "length cs < 256"
    and "gc_normalize_gcode_block cm schar block s = Some (b, s1)"
    and "\<not> block_deleted (cstr b)"
  shows "\<exists>b'. gc_normalize_gcode_block cm schar b s1 = Some (b', s1) \<and> cstr b' = cstr b"
proof -
  let ?out = "normalized schar cs"
  from normalize_spec [OF assms(1-3), of cm schar s] assms(4) obtain rest where
    b: "b = ?out @ NUL # rest"
    by auto
  have no: "NUL \<notin> set ?out" using assms(2) by (rule normalized_no_NUL)
  have lo: "length ?out < 256" using normalized_length [of schar cs] assms(3) by simp
  from b no have c: "cstr b = ?out" by (simp add: cstr_append_NUL)
  from normalize_spec [OF b no lo, of cm schar s1] obtain b' rest' where
    b': "gc_normalize_gcode_block cm schar b s1 = Some (b', emit cm (message_of ?out) s1)"
    and e: "b' = normalized schar ?out @ NUL # rest'"
    by blast
  from assms(5) have i: "normalized schar ?out = ?out"
    unfolding c by (rule normalized_idem)
  from e no have "cstr b' = ?out" unfolding i by (simp add: cstr_append_NUL)
  with b' c show ?thesis by (simp add: message_of_command emit_def)
qed

theorem renormalize_same_witness:
  "\<exists>b b'. gc_normalize_gcode_block (test_cm accept) False (line ''g1 x-1.5 (c)'') (state0 gm0)
             = Some (b, state0 gm0)
     \<and> cstr b = ''G1X-1.5''
     \<and> gc_normalize_gcode_block (test_cm accept) False b (state0 gm0) = Some (b', state0 gm0)
     \<and> cstr b' = ''G1X-1.5''"
proof -
  have n: "NUL \<notin> set ''g1 x-1.5 (c)''" and l: "length ''g1 x-1.5 (c)'' < 256"
    by (simp_all add: NUL_def)
  have "\<exists>b. gc_normalize_gcode_block (test_cm accept) False (line ''g1 x-1.5 (c)'') (state0 gm0)
             = Some (b, state0 gm0) \<and> cstr b = ''G1X-1.5''"
    by (simp add: char_eval norm_eval)
  then obtain b where b: "gc_normalize_gcode_block (test_cm accept) False
      (line ''g1 x-1.5 (c)'') (state0 gm0) = Some (b, state0 gm0)"
    and c: "cstr b = ''G1X-1.5''"
    by blast
  have d: "\<not> block_deleted (cstr b)" unfolding c by (simp add: block_deleted_def)
  from renormalize_same [OF line_block n l b d] c b show ?thesis by auto
qed

subsection \<open>C4: the message of a comment\<close>

text \<open>
  C4 says that a comment that begins with MSG gives exactly one message, the text
  after MSG up to the first closing parenthesis, and that the line \<open>(MSG hello)\<close>
  gives the message \<open>hello\<close>. The text after MSG begins with the space that follows
  it, and \<open>cm_message(comment+3)\<close> passes it on: the message of \<open>(MSG hello)\<close> has a
  space before \<open>hello\<close>. The command is empty, the status is \<open>TG_OK\<close> and the message
  is the only call.
\<close>

theorem msg_hello_leading_space:
  "outcome (gc_gcode_parser strtod_decimal (test_cm accept) False (line ''(MSG hello)'')
      (state0 gm0))
     = Some (TG_OK, [], [(Cm_message '' hello'', TG_OK)])"
  by (simp add: line_eval)

text \<open>
  C4 as amended: take a line of at most 255 characters that does not begin with a
  slash, \<open>pre\<close> the text before its first opening parenthesis and \<open>com\<close> the text
  after it. When the first three characters of \<open>com\<close> are MSG in any case, the
  normalizer returns, leaves the command of \<open>pre\<close>, and makes exactly one call:
  \<open>cm_message\<close> with the text of \<open>com\<close> after these three characters, up to the
  first closing parenthesis, or up to the end of the line when there is none. For
  \<open>(MSG hello)\<close> that is a space and \<open>hello\<close>.
\<close>

theorem msg_comment_emitted:
  assumes "block = pre @ CHR ''('' # com @ NUL # after"
    and "CHR ''('' \<notin> set pre" and "NUL \<notin> set pre" and "NUL \<notin> set com"
    and "length pre + length com < 255"
    and "\<not> block_deleted pre"
    and "msg_prefix com"
  shows "\<exists>b. gc_normalize_gcode_block cm schar block s
               = Some (b, snd (cm_call cm
                   (Cm_message (takeWhile (\<lambda>c. c \<noteq> CHR '')'') (drop 3 com))) s))
           \<and> cstr b = command schar pre
           \<and> map fst (calls (snd (cm_call cm
                   (Cm_message (takeWhile (\<lambda>c. c \<noteq> CHR '')'') (drop 3 com))) s)))
               = map fst (calls s) @ [Cm_message (takeWhile (\<lambda>c. c \<noteq> CHR '')'') (drop 3 com))]"
proof -
  let ?cs = "pre @ CHR ''('' # com"
  let ?m = "takeWhile (\<lambda>c. c \<noteq> CHR '')'') (drop 3 com)"
  have blk: "block = ?cs @ NUL # after" using assms(1) by simp
  have nn: "NUL \<notin> set ?cs" using assms(3,4) by (simp add: NUL_def)
  have len: "length ?cs < 256" using assms(5) by simp
  have nd: "\<not> block_deleted ?cs" using assms(6) by (simp add: block_deleted_split)
  have m: "message_of ?cs = Some ?m"
    using nd assms(2,7) by (simp add: message_of_def comment_text_split)
  have n: "normalized schar ?cs = command schar pre"
    using nd assms(2) by (simp add: normalized_def command_split)
  from normalize_spec [OF blk nn len, of cm schar s] obtain b rest where
    b: "gc_normalize_gcode_block cm schar block s = Some (b, emit cm (message_of ?cs) s)"
    and e: "b = normalized schar ?cs @ NUL # rest"
    by blast
  from e nn have "cstr b = command schar pre"
    unfolding n using command_no_NUL [OF assms(3), of schar] by (simp add: cstr_append_NUL)
  with b show ?thesis unfolding m by (simp add: emit_def)
qed

theorem msg_comment_emitted_witness:
  "\<exists>b. gc_normalize_gcode_block (test_cm accept) False (line ''(MSG hello)'') (state0 gm0)
         = Some (b, snd (cm_call (test_cm accept) (Cm_message '' hello'') (state0 gm0)))
       \<and> cstr b = []
       \<and> map fst (calls (snd (cm_call (test_cm accept) (Cm_message '' hello'') (state0 gm0))))
           = [Cm_message '' hello'']"
proof -
  have blk: "line ''(MSG hello)'' = [] @ CHR ''('' # ''MSG hello)'' @ NUL # []"
    by (simp add: line_def)
  have h: "CHR ''('' \<notin> set []" "NUL \<notin> set []" "NUL \<notin> set ''MSG hello)''"
    "length ([] :: string) + length ''MSG hello)'' < 255" "\<not> block_deleted []"
    "msg_prefix ''MSG hello)''"
    by (simp_all add: NUL_def block_deleted_def msg_prefix_def toupper_def islower_def code_def)
  have t: "takeWhile (\<lambda>c. c \<noteq> CHR '')'') (drop 3 ''MSG hello)'') = '' hello''"
    by simp
  from msg_comment_emitted [OF blk h, of "test_cm accept" False "state0 gm0"]
  show ?thesis unfolding t by (simp add: state0_def)
qed

subsection \<open>C9: one call of the tokenizer, and repeated calls\<close>



end
